theory Spec2Isabelle
  imports Main "HOL-Library.AList"
begin

section \<open>Python strings\<close>

text \<open>
  Source texts, file names and language names are Python 2 byte strings, modelled as
  \<open>string\<close>. The line feed is \<open>CHR 0x0A\<close>.
\<close>

abbreviation nl :: char where
  "nl \<equiv> CHR 0x0A"

text \<open>\<open>str.endswith\<close>.\<close>

definition endswith :: "string \<Rightarrow> string \<Rightarrow> bool" where
  "endswith s suffix \<longleftrightarrow>
     length suffix \<le> length s \<and> drop (length s - length suffix) s = suffix"

text \<open>\<open>str.lower\<close> on ASCII letters (the C locale of Python 2).\<close>

definition lower_char :: "char \<Rightarrow> char" where
  "lower_char c =
     (case map_of (zip ''ABCDEFGHIJKLMNOPQRSTUVWXYZ'' ''abcdefghijklmnopqrstuvwxyz'') c of
        Some d \<Rightarrow> d
      | None \<Rightarrow> c)"

definition lower :: "string \<Rightarrow> string" where
  "lower s = map lower_char s"

text \<open>\<open>os.path.basename\<close> of posixpath: what follows the last slash.\<close>

fun basename :: "string \<Rightarrow> string" where
  "basename [] = []"
| "basename (c # cs) = (if CHR ''/'' \<in> set cs then basename cs
                        else if c = CHR ''/'' then cs else c # cs)"

section \<open>Language definitions\<close>

text \<open>
  The class attributes of a \<open>Language\<close> that file naming and the registry read:
  \<open>name\<close> (the class name unless overridden), \<open>extensions\<close> and the dictionary
  \<open>filename_substitutes\<close>.
\<close>

record language =
  name :: string
  extensions :: "string list"
  filename_substitutes :: "(string \<times> string) list"

text \<open>The classes of the module; \<open>C_lang\<close> stands for the class \<open>C\<close>.\<close>

datatype language_class =
    PlainText | Markdown | Python | Fortran | PHP | C_lang | JavaScript | Ruby | Haskell
  | Lua | Erlang | Tcl | CoffeeScript | Perl | SQL | Scheme | Clojure

fun class_name :: "language_class \<Rightarrow> string" where
  "class_name PlainText = ''PlainText''"
| "class_name Markdown = ''Markdown''"
| "class_name Python = ''Python''"
| "class_name Fortran = ''Fortran''"
| "class_name PHP = ''PHP''"
| "class_name C_lang = ''C''"
| "class_name JavaScript = ''JavaScript''"
| "class_name Ruby = ''Ruby''"
| "class_name Haskell = ''Haskell''"
| "class_name Lua = ''Lua''"
| "class_name Erlang = ''Erlang''"
| "class_name Tcl = ''Tcl''"
| "class_name CoffeeScript = ''Coffee-Script''"
| "class_name Perl = ''Perl''"
| "class_name SQL = ''SQL''"
| "class_name Scheme = ''Scheme''"
| "class_name Clojure = ''Clojure''"

fun class_extensions :: "language_class \<Rightarrow> string list" where
  "class_extensions PlainText = [''.txt'']"
| "class_extensions Markdown = [''.md'']"
| "class_extensions Python = [''.py'', ''.pyx'']"
| "class_extensions Fortran = [''.f'', ''.f90'']"
| "class_extensions PHP = [''.php'']"
| "class_extensions C_lang = [''.c'', ''.cpp'', ''.h'', ''.cc'']"
| "class_extensions JavaScript = [''.js'']"
| "class_extensions Ruby = [''.rb'']"
| "class_extensions Haskell = [''.hs'']"
| "class_extensions Lua = [''.lua'']"
| "class_extensions Erlang = [''.erl'']"
| "class_extensions Tcl = [''.tcl'']"
| "class_extensions CoffeeScript = [''.coffee'']"
| "class_extensions Perl = [''.pl'']"
| "class_extensions SQL = [''.sql'']"
| "class_extensions Scheme = [''.scm'']"
| "class_extensions Clojure = [''.cljs'', ''.clj'']"

fun class_filename_substitutes :: "language_class \<Rightarrow> (string \<times> string) list" where
  "class_filename_substitutes PlainText = [(''index.txt'', ''index.html'')]"
| "class_filename_substitutes Markdown = [(''index.md'', ''index.html'')]"
| "class_filename_substitutes Python = [(''__init__.py'', ''index.html'')]"
| "class_filename_substitutes other = []"

text \<open>\<open>language()\<close>: the instance of a class.\<close>

definition language_of :: "language_class \<Rightarrow> language" where
  "language_of c = \<lparr>name = class_name c, extensions = class_extensions c,
                     filename_substitutes = class_filename_substitutes c\<rparr>"

text \<open>\<open>Language.transform_filename\<close>.\<close>

definition transform_filename :: "language \<Rightarrow> string \<Rightarrow> string" where
  "transform_filename self filename =
     (case map_of (filename_substitutes self) filename of
        Some substitute \<Rightarrow> substitute
      | None \<Rightarrow>
          if list_ex (\<lambda>extension. endswith filename extension) (extensions self)
          then filename @ ''.html''
          else filename)"

section \<open>The registry\<close>

text \<open>
  \<open>extensions_mapping\<close> is a dictionary from extension to instance, kept here as an
  association list with one entry per key; \<open>values()\<close> walks it in list order. Python 2
  leaves the order of a dictionary open: the general statements about lookup below hold
  for every registry, hence for every order. The module-level loop runs once, over the
  fixed list \<open>languages\<close>, and stores each extension of each instance with
  \<open>extensions_mapping[extension] = instance\<close>; \<open>store_extensions\<close> is its inner loop.
\<close>

datatype error = ValueError string

type_synonym registry = "(string \<times> language) list"

definition store_extensions :: "language \<Rightarrow> registry \<Rightarrow> registry" where
  "store_extensions inst m = fold (\<lambda>extension m'. AList.update extension inst m') (extensions inst) m"

definition languages :: "language_class list" where
  "languages = [Markdown, Python, Fortran, PHP, C_lang, JavaScript, Ruby, Haskell, Lua,
                Erlang, Tcl, CoffeeScript, Perl, SQL, Scheme, Clojure]"

definition extensions_mapping :: registry where
  "extensions_mapping = fold store_extensions (map language_of languages) []"

text \<open>
  \<open>re.match(r'.*(\..+)', s)\<close>, group 1: the dot may not cross a line feed, so the match
  stays in the first line of \<open>s\<close>; the greedy \<open>.*\<close> gives the last dot of that line
  that has a character after it.
\<close>

fun last_dot_group :: "string \<Rightarrow> string option" where
  "last_dot_group [] = None"
| "last_dot_group (c # cs) =
     (case last_dot_group cs of
        Some g \<Rightarrow> Some g
      | None \<Rightarrow> if c = CHR ''.'' \<and> cs \<noteq> [] then Some (c # cs) else None)"

definition extension_group :: "string \<Rightarrow> string option" where
  "extension_group s = last_dot_group (takeWhile (\<lambda>c. c \<noteq> nl) s)"

text \<open>
  \<open>get_language\<close>. The content guesser \<open>lexers.guess_lexer(code).name\<close> belongs to
  pygments and is a parameter: \<open>None\<close> when it raises, otherwise the lexer's name.
  The result is \<open>Inl\<close> for a raised exception, \<open>Inr None\<close> for Python's \<open>None\<close>.
\<close>

definition by_name :: "registry \<Rightarrow> string \<Rightarrow> language option" where
  "by_name m n = find (\<lambda>l. name l = n) (map snd m)"

definition guess_language :: "(string \<Rightarrow> string option) \<Rightarrow> registry \<Rightarrow> string \<Rightarrow> language option" where
  "guess_language guess_lexer m code =
     (case guess_lexer code of
        None \<Rightarrow> None
      | Some lexer_name \<Rightarrow> by_name m (lower lexer_name))"

definition get_language ::
  "(string \<Rightarrow> string option) \<Rightarrow> registry \<Rightarrow> string \<Rightarrow> string \<Rightarrow> string option
     \<Rightarrow> error + language option" where
  "get_language guess_lexer m source code forced =
     (case forced of
        Some lang \<Rightarrow>
          (case by_name m lang of
             Some l \<Rightarrow> Inr (Some l)
           | None \<Rightarrow> Inl (ValueError (''Unknown forced language: '' @ lang)))
      | None \<Rightarrow>
          (case extension_group (basename source) of
             Some ext \<Rightarrow>
               (case map_of m ext of
                  Some l \<Rightarrow> Inr (Some l)
                | None \<Rightarrow> Inr (guess_language guess_lexer m code))
           | None \<Rightarrow> Inr (guess_language guess_lexer m code)))"

text \<open>A guesser that raises on every input.\<close>

definition no_guess :: "string \<Rightarrow> string option" where
  "no_guess code = None"

definition guess_text :: "string \<Rightarrow> string option" where
  "guess_text code = Some ''Text only''"

section \<open>Character classes, trimming, lines\<close>

text \<open>
  \<open>is_blank\<close> is the class \<open>[ \t]\<close>; \<open>is_space\<close> is \<open>\s\<close> of a byte pattern, which
  is also what \<open>str.strip()\<close> removes; \<open>is_word\<close> is \<open>\w\<close>.
\<close>

definition is_blank :: "char \<Rightarrow> bool" where
  "is_blank c \<longleftrightarrow> c = CHR '' '' \<or> c = CHR 0x09"

definition is_space :: "char \<Rightarrow> bool" where
  "is_space c \<longleftrightarrow> c = CHR '' '' \<or> c = CHR 0x09 \<or> c = nl \<or> c = CHR 0x0D \<or> c = CHR 0x0B
     \<or> c = CHR 0x0C"

definition is_nl :: "char \<Rightarrow> bool" where
  "is_nl c \<longleftrightarrow> c = nl"

definition is_word :: "char \<Rightarrow> bool" where
  "is_word c \<longleftrightarrow>
     c \<in> set ''abcdefghijklmnopqrstuvwxyzABCDEFGHIJKLMNOPQRSTUVWXYZ0123456789_''"

text \<open>\<open>str.lstrip\<close>, \<open>str.rstrip\<close>, \<open>str.strip\<close> for a set of characters.\<close>

definition lstrip :: "(char \<Rightarrow> bool) \<Rightarrow> string \<Rightarrow> string" where
  "lstrip P s = dropWhile P s"

definition rstrip :: "(char \<Rightarrow> bool) \<Rightarrow> string \<Rightarrow> string" where
  "rstrip P s = rev (dropWhile P (rev s))"

definition strip :: "(char \<Rightarrow> bool) \<Rightarrow> string \<Rightarrow> string" where
  "strip P s = rstrip P (lstrip P s)"

definition startswith :: "string \<Rightarrow> string \<Rightarrow> bool" where
  "startswith s p \<longleftrightarrow> take (length p) s = p"

text \<open>\<open>s.split("\n")[-1]\<close>: what follows the last line feed.\<close>

definition last_line :: "string \<Rightarrow> string" where
  "last_line s = rev (takeWhile (\<lambda>c. c \<noteq> nl) (rev s))"

text \<open>The index of the first occurrence of \<open>pat\<close>, as \<open>str.find\<close>.\<close>

fun find_sub :: "string \<Rightarrow> string \<Rightarrow> nat option" where
  "find_sub pat [] = (if pat = [] then Some 0 else None)"
| "find_sub pat (c # cs) =
     (if startswith (c # cs) pat then Some 0 else map_option Suc (find_sub pat cs))"

text \<open>The lines of a text, each with its line feed; their concatenation is the text.\<close>

fun lines_nl :: "string \<Rightarrow> string list" where
  "lines_nl [] = []"
| "lines_nl (c # cs) =
     (if c = nl then [c] # lines_nl cs
      else (case lines_nl cs of [] \<Rightarrow> [[c]] | l # ls \<Rightarrow> (c # l) # ls))"

section \<open>Patterns with a line anchor\<close>

text \<open>
  Every pattern of the passes below starts with \<open>^\<close> under \<open>re.M\<close>, so it can match
  only at the start of the text or just after a line feed, and it never matches the empty
  string. Such a pattern is given by what it does at a line start: the length of the match
  and the text of group 1. \<open>search\<close> is \<open>regex.search(text, pos)\<close>: the leftmost match
  starting at or after \<open>pos\<close>; \<open>finditer\<close> is \<open>regex.finditer(text)\<close>: the matches from
  left to right, each search resuming where the previous match ended. A match is
  (start, end, group 1).
\<close>

type_synonym anchored = "string \<Rightarrow> (nat \<times> string) option"

type_synonym match = "nat \<times> nat \<times> string"

fun scan_first :: "anchored \<Rightarrow> bool \<Rightarrow> nat \<Rightarrow> string \<Rightarrow> match option" where
  "scan_first m bol pos [] = None"
| "scan_first m bol pos (c # cs) =
     (case (if bol then m (c # cs) else None) of
        Some (len, grp) \<Rightarrow> Some (pos, pos + len, grp)
      | None \<Rightarrow> scan_first m (c = nl) (Suc pos) cs)"

definition at_line_start :: "string \<Rightarrow> nat \<Rightarrow> bool" where
  "at_line_start text pos \<longleftrightarrow> pos = 0 \<or> take 1 (drop (pos - 1) text) = [nl]"

definition search :: "anchored \<Rightarrow> string \<Rightarrow> nat \<Rightarrow> match option" where
  "search m text pos = scan_first m (at_line_start text pos) pos (drop pos text)"

fun scan_all :: "anchored \<Rightarrow> bool \<Rightarrow> nat \<Rightarrow> nat \<Rightarrow> string \<Rightarrow> match list" where
  "scan_all m bol skip pos [] = []"
| "scan_all m bol skip pos (c # cs) =
     (if 0 < skip then scan_all m (c = nl) (skip - 1) (Suc pos) cs
      else case (if bol then m (c # cs) else None) of
        Some (len, grp) \<Rightarrow> (pos, pos + len, grp) # scan_all m (c = nl) (len - 1) (Suc pos) cs
      | None \<Rightarrow> scan_all m (c = nl) 0 (Suc pos) cs)"

definition finditer :: "anchored \<Rightarrow> string \<Rightarrow> match list" where
  "finditer m text = scan_all m True 0 0 text"

section \<open>Sections\<close>

text \<open>
  Modelled from the spec: the class \<open>Section\<close> of \<open>languages/utils.py\<close>, which is not
  among the sources. A section pairs documentation text and code text and carries an
  indentation level, a scope label and a processing flag; a fresh section has empty
  texts, level 0, no label and no flag. \<open>has_code\<close> and \<open>has_docs\<close> say that the text is
  not empty. The label is a string, empty when absent, as \<open>'@' in scope\<close> and
  \<open>scope or ...\<close> in the passes need.
\<close>

record Section =
  docs_text :: string
  code_text :: string
  level :: nat
  scope :: string
  meta :: "string option"

definition new_Section :: "string \<Rightarrow> string \<Rightarrow> Section" where
  "new_Section docs code =
     \<lparr>docs_text = docs, code_text = code, level = 0, scope = [], meta = None\<rparr>"

definition has_code :: "Section \<Rightarrow> bool" where
  "has_code s \<longleftrightarrow> code_text s \<noteq> []"

definition has_docs :: "Section \<Rightarrow> bool" where
  "has_docs s \<longleftrightarrow> docs_text s \<noteq> []"

text \<open>
  Modelled from the spec: \<open>split_code_by_pos\<close> of \<open>languages/utils.py\<close> (the spec's
  \<open>split_by_position\<close>): the section at index \<open>i\<close> is replaced by two, the first keeping
  everything but the code from \<open>pos\<close> on, which goes to a fresh second section.
\<close>

definition split_code_by_pos :: "nat \<Rightarrow> nat \<Rightarrow> Section list \<Rightarrow> Section list" where
  "split_code_by_pos i pos sections =
     take i sections
       @ [(sections ! i)\<lparr>code_text := take pos (code_text (sections ! i))\<rparr>,
          new_Section [] (drop pos (code_text (sections ! i)))]
       @ drop (Suc i) sections"

text \<open>
  Modelled from the spec: \<open>split_section_by_regex\<close> of \<open>languages/utils.py\<close> (the spec's
  \<open>split_by_pattern\<close>): with no match the section is returned alone and unchanged;
  otherwise the code text is cut at the boundaries of every match, group 1 of a match
  becomes the documentation of a section of its own, tagged with the given flag, and the
  text between the matches stays code. The first piece is the original section with its
  code cut short.
\<close>

fun split_pieces :: "string \<Rightarrow> nat \<Rightarrow> match list \<Rightarrow> string option \<Rightarrow> Section list" where
  "split_pieces code pos [] tag = [new_Section [] (drop pos code)]"
| "split_pieces code pos ((start, stop, grp) # ms) tag =
     new_Section [] (take (start - pos) (drop pos code))
       # (new_Section grp [])\<lparr>meta := tag\<rparr>
       # split_pieces code stop ms tag"

definition split_section_by_regex ::
  "Section \<Rightarrow> (string \<Rightarrow> match list) \<Rightarrow> string option \<Rightarrow> Section list" where
  "split_section_by_regex section regex tag =
     (case regex (code_text section) of
        [] \<Rightarrow> [section]
      | m # ms \<Rightarrow>
          (case split_pieces (code_text section) 0 (m # ms) tag of
             [] \<Rightarrow> [section]
           | first # rest \<Rightarrow> section\<lparr>code_text := code_text first\<rparr> # rest))"

text \<open>
  Modelled from the spec: the decorator \<open>iterate_sections(start)\<close> of
  \<open>languages/utils.py\<close>. A pass maps a section sequence to a section sequence; the
  decorated body is run on the list at an index that starts at \<open>start\<close> (1 when the
  decorator has no argument: those bodies read \<open>sections[i-1]\<close>) and runs while it is
  below the current length. The index moves to the value the body returns, or one up when
  the body returns nothing. A body is \<open>None\<close> where Python raises IndexError; a pass is
  \<open>None\<close> when a body raises or the loop does not end.
\<close>

type_synonym body = "Section list \<Rightarrow> nat \<Rightarrow> (Section list \<times> nat option) option"

type_synonym pass = "Section list \<Rightarrow> Section list option"

partial_function (option) iterate_from :: "body \<Rightarrow> nat \<Rightarrow> Section list \<Rightarrow> Section list option" where
  "iterate_from f i sections =
     (if i < length sections
      then Option.bind (f sections i)
             (\<lambda>(sections', r). iterate_from f (case r of Some j \<Rightarrow> j | None \<Rightarrow> Suc i) sections')
      else Some sections)"

definition iterate_sections :: "nat \<Rightarrow> body \<Rightarrow> pass" where
  "iterate_sections start f sections = iterate_from f start sections"

text \<open>List surgery of the bodies: \<open>sections[i-1]\<close> and \<open>sections[i:i+1] = new\<close>.\<close>

definition prev :: "nat \<Rightarrow> Section list \<Rightarrow> nat" where
  "prev i sections = (if i = 0 then length sections - 1 else i - 1)"

definition splice :: "nat \<Rightarrow> Section list \<Rightarrow> Section list \<Rightarrow> Section list" where
  "splice i new sections = take i sections @ new @ drop (Suc i) sections"

definition delete_at :: "nat \<Rightarrow> Section list \<Rightarrow> Section list" where
  "delete_at i sections = splice i [] sections"

text \<open>
  \<open>re.compile(r"^...", re.M).sub("", text)\<close> for a pattern that stays inside one line:
  at every line start where the pattern matches, the matched characters are removed.
\<close>

definition sub_lines :: "(string \<Rightarrow> nat option) \<Rightarrow> string \<Rightarrow> string" where
  "sub_lines m text = concat (map (\<lambda>l. case m l of Some k \<Rightarrow> drop k l | None \<Rightarrow> l) (lines_nl text))"

section \<open>The passes of \<open>Language\<close>\<close>

text \<open>\<open>Language.set_sections_levels\<close>; the pattern \<open>^([ \t]*)\<close> always matches.\<close>

definition set_sections_levels :: body where
  "set_sections_levels sections i =
     (if length sections \<le> i then None
      else if code_text (sections ! i) \<noteq> []
      then Some (sections[i := (sections ! i)
                   \<lparr>level := length (takeWhile is_blank (code_text (sections ! i)))\<rparr>], None)
      else if 0 < i
      then Some (sections[i := (sections ! i)\<lparr>level := level (sections ! (i - 1))\<rparr>], None)
      else Some (sections, None))"

text \<open>\<open>Language.strip_docs_indentation\<close>.\<close>

definition indent_prefix :: "string \<Rightarrow> string \<Rightarrow> nat option" where
  "indent_prefix indent l = (if startswith l indent then Some (length indent) else None)"

definition strip_docs_indentation :: body where
  "strip_docs_indentation sections i =
     (if length sections \<le> i then None
      else let indent = takeWhile is_blank (docs_text (sections ! i))
           in Some (sections[i := (sections ! i)
                      \<lparr>docs_text := sub_lines (indent_prefix indent) (docs_text (sections ! i))\<rparr>],
                    None))"

text \<open>
  \<open>Language.merge_up\<close>. The class attribute \<open>scope_keywords\<close> is given by what the
  alternation of its patterns matches at a line start; \<open>re.match\<close> of one of the patterns
  on \<open>prev_line\<close> succeeds when that alternation matches at the start of \<open>prev_line\<close>.
\<close>

definition merge_up :: "anchored \<Rightarrow> body" where
  "merge_up scope_keywords sections i =
     (if length sections \<le> i then None
      else let p = prev i sections; previous = sections ! p; cur = sections ! i in
        if \<not> has_code cur \<and> \<not> has_docs previous \<and> has_code previous
        then let prev_line = strip is_space (last_line (strip is_space (code_text previous))) in
          if scope_keywords prev_line \<noteq> None
          then Some (delete_at i (sections[p := previous\<lparr>docs_text := docs_text cur\<rparr>]), None)
          else Some (sections, None)
        else Some (sections, None))"

text \<open>\<open>Language.merge_down\<close>.\<close>

definition merge_down :: body where
  "merge_down sections i =
     (if length sections \<le> i then None
      else let p = prev i sections; previous = sections ! p; cur = sections ! i in
        if \<not> has_code previous \<and> has_docs previous \<and> \<not> has_docs cur \<and> has_code cur
        then Some (delete_at i (sections[p := previous
                     \<lparr>code_text := code_text cur,
                      scope := (if scope cur \<noteq> [] then scope cur else scope previous)\<rparr>]), None)
        else Some (sections, None))"

text \<open>\<open>Language.absorb\<close>.\<close>

definition absorb :: body where
  "absorb sections i =
     (if length sections \<le> i then None
      else let p = prev i sections; previous = sections ! p; cur = sections ! i in
        if \<not> has_docs cur \<and> level previous < level cur
        then Some (delete_at i (sections[p := previous
                     \<lparr>code_text := rstrip is_nl (code_text previous) @ [nl, nl]
                                      @ lstrip is_nl (code_text cur)\<rparr>]), None)
        else Some (sections, None))"

section \<open>Inline comments\<close>

text \<open>
  \<open>InlineCommentLanguage.inline_re\<close> is
  \<open>((?:^[ \t]*D(?!(I)).*\n)+)\<close> under \<open>re.M\<close>, for the delimiter \<open>D\<close> and the alternation
  \<open>I\<close> of the ignored patterns. One round of the repetition takes exactly one line: blanks,
  the delimiter, a text at whose start \<open>I\<close> does not match, up to the line feed, which
  must be there. A match is therefore a maximal run of such lines, and group 1 is the
  whole match. The lookahead reads the text after the delimiter, which may go beyond the
  line, so \<open>doc_line\<close> is given all the text from the line start on.
\<close>

definition doc_line :: "string \<Rightarrow> (string \<Rightarrow> bool) \<Rightarrow> string \<Rightarrow> bool" where
  "doc_line delim ignored text \<longleftrightarrow>
     startswith (dropWhile is_blank text) delim
     \<and> \<not> ignored (drop (length delim) (dropWhile is_blank text))
     \<and> nl \<in> set text"

fun inline_scan ::
  "string \<Rightarrow> (string \<Rightarrow> bool) \<Rightarrow> nat \<Rightarrow> string \<Rightarrow> string list \<Rightarrow> match list" where
  "inline_scan delim ignored pos run [] =
     (if run = [] then [] else [(pos - length run, pos, run)])"
| "inline_scan delim ignored pos run (l # ls) =
     (if doc_line delim ignored (concat (l # ls))
      then inline_scan delim ignored (pos + length l) (run @ l) ls
      else (if run = [] then [] else [(pos - length run, pos, run)])
             @ inline_scan delim ignored (pos + length l) [] ls)"

definition inline_re :: "string \<Rightarrow> (string \<Rightarrow> bool) \<Rightarrow> string \<Rightarrow> match list" where
  "inline_re delim ignored text = inline_scan delim ignored 0 [] (lines_nl text)"

text \<open>\<open>InlineCommentLanguage.inline_prefix\<close>, \<open>^[ \t]*D\<close> under \<open>re.M\<close>.\<close>

definition inline_prefix :: "string \<Rightarrow> string \<Rightarrow> nat option" where
  "inline_prefix delim l =
     (if startswith (dropWhile is_blank l) delim
      then Some (length (takeWhile is_blank l) + length delim) else None)"

text \<open>\<open>InlineCommentLanguage.parse_inline\<close>.\<close>

definition strip_inline :: "string \<Rightarrow> Section \<Rightarrow> Section" where
  "strip_inline delim section =
     (if meta section \<noteq> Some ''stripped''
      then section\<lparr>docs_text := sub_lines (inline_prefix delim) (docs_text section),
                   meta := Some ''stripped''\<rparr>
      else section)"

definition parse_inline :: "string \<Rightarrow> (string \<Rightarrow> bool) \<Rightarrow> body" where
  "parse_inline delim ignored sections i =
     (if length sections \<le> i then None
      else let new_sections = split_section_by_regex (sections ! i) (inline_re delim ignored) None
           in Some (splice i (map (strip_inline delim) new_sections) sections, None))"

section \<open>Multiline comments\<close>

text \<open>
  \<open>MultilineCommentLanguage.multiline_re\<close> for delimiters that are literal strings and no
  ignore markers, as in \<open>Python\<close>: \<open>^(\s*S((?!E)[\s\S])*)E\<close> under \<open>re.M\<close>. After the
  white space comes the start delimiter, then everything up to the first end delimiter;
  group 1 stops before the end delimiter.
\<close>

definition multiline_re :: "string \<Rightarrow> string \<Rightarrow> anchored" where
  "multiline_re multistart multiend text =
     (let ws = length (takeWhile is_space text) in
      if startswith (drop ws text) multistart
      then (case find_sub multiend (drop (ws + length multistart) text) of
              Some k \<Rightarrow> Some (ws + length multistart + k + length multiend,
                              take (ws + length multistart + k) text)
            | None \<Rightarrow> None)
      else None)"

text \<open>\<open>re.sub(r"^\n*(\s*)S", r"\1", docs)\<close>, without \<open>re.M\<close>: only at the start.\<close>

definition strip_multistart :: "string \<Rightarrow> string \<Rightarrow> string" where
  "strip_multistart multistart docs =
     (if startswith (dropWhile is_space docs) multistart
      then dropWhile is_nl (takeWhile is_space docs)
             @ drop (length multistart) (dropWhile is_space docs)
      else docs)"

text \<open>\<open>MultilineCommentLanguage.parse_multiline\<close>.\<close>

definition parse_multiline :: "string \<Rightarrow> string \<Rightarrow> body" where
  "parse_multiline multistart multiend sections i =
     (if length sections \<le> i then None
      else let sections' = splice i (split_section_by_regex (sections ! i)
                                       (finditer (multiline_re multistart multiend))
                                       (Some ''stripped'')) sections
           in Some (sections'[i := (sections' ! i)
                      \<lparr>docs_text := strip_multistart multistart (docs_text (sections' ! i))\<rparr>],
                    None))"

section \<open>Indentation-based scopes\<close>

text \<open>
  The first pattern of \<open>IndentBasedLanguage.split_by_scopes\<close> is
  \<open>^(\s{0,N}\S)\<close> with \<open>N = len(indent) - 1\<close>. For an empty indent the text in braces is
  \<open>0,-1\<close>, which is no repetition count, so the braces and what is between them stand for
  themselves.
\<close>

definition indent_re :: "nat \<Rightarrow> anchored" where
  "indent_re n text =
     (if n = 0
      then (if startswith (drop 1 text) ''{0,-1}'' \<and> list_ex is_space (take 1 text)
               \<and> list_ex (\<lambda>c. \<not> is_space c) (take 1 (drop 7 text))
            then Some (8, take 8 text) else None)
      else let w = length (takeWhile is_space text) in
        if w \<le> n - 1 \<and> w < length text then Some (Suc w, take (Suc w) text) else None)"

text \<open>\<open>IndentBasedLanguage.split_by_scopes\<close>.\<close>

definition split_by_scopes :: "anchored \<Rightarrow> body" where
  "split_by_scopes scope_keywords sections i =
     (if length sections \<le> i then None
      else
        let code = code_text (sections ! i);
            indent = takeWhile is_space (strip is_nl code);
            sections1 =
              (case search (indent_re (length indent)) code (length indent + 1) of
                 Some (start, stop, grp) \<Rightarrow>
                   (let s = split_code_by_pos i start sections in
                    s[i := (s ! i)\<lparr>level := length indent\<rparr>,
                      Suc i := (s ! Suc i)\<lparr>level := length (strip is_nl grp)\<rparr>])
               | None \<Rightarrow> sections);
            code1 = code_text (sections1 ! i);
            (sections2, found) =
              (case search scope_keywords code1 0 of
                 Some (start, stop, grp) \<Rightarrow>
                   if start = 0
                   then (sections1[i := (sections1 ! i)\<lparr>scope := strip is_space grp\<rparr>],
                         search scope_keywords code1 1)
                   else (sections1, Some (start, stop, grp))
               | None \<Rightarrow> (sections1, None))
        in (case found of
              Some (start, stop, grp) \<Rightarrow>
                (let s = split_code_by_pos i start sections2 in
                 Some (s[Suc i := (s ! Suc i)\<lparr>code_text := strip is_nl (code_text (s ! Suc i)),
                                               scope := strip is_space grp\<rparr>], None))
            | None \<Rightarrow> Some (sections2, None)))"

section \<open>Python\<close>

text \<open>
  \<open>Python.scope_keywords\<close>, joined with \<open>|\<close>: \<open>^\s*(def) \<close>, \<open>^\s*(class) \<close> and
  \<open>^\s*(@)\w+\<close>. Group 1 of the joined pattern is the whole match.
\<close>

definition python_scope_keywords :: anchored where
  "python_scope_keywords text =
     (let ws = length (takeWhile is_space text); rest = drop ws text in
      if startswith rest ''def '' then Some (ws + 4, take (ws + 4) text)
      else if startswith rest ''class '' then Some (ws + 6, take (ws + 6) text)
      else if startswith rest ''@'' \<and> list_ex is_word (take 1 (drop 1 rest))
      then Some (ws + 1 + length (takeWhile is_word (drop 1 rest)),
                 take (ws + 1 + length (takeWhile is_word (drop 1 rest))) text)
      else None)"

text \<open>
  \<open>Python.ignored_inline_patterns\<close> at the start of a text: the shebang pattern
  \<open>(\!.+)\<close> or the file encoding pattern \<open>((\s)*-\*-(\s)*coding:.+(\s*)-\*-)\<close>.
\<close>

fun coding_tail :: "string \<Rightarrow> bool" where
  "coding_tail [] = False"
| "coding_tail (c # cs) =
     (c \<noteq> nl \<and> (startswith (dropWhile is_space cs) ''-*-'' \<or> coding_tail cs))"

definition python_ignored :: "string \<Rightarrow> bool" where
  "python_ignored text \<longleftrightarrow>
     (startswith text ''!'' \<and> list_ex (\<lambda>c. c \<noteq> nl) (take 1 (drop 1 text)))
     \<or> (startswith (dropWhile is_space text) ''-*-''
        \<and> startswith (dropWhile is_space (drop 3 (dropWhile is_space text))) ''coding:''
        \<and> coding_tail (drop 7 (dropWhile is_space (drop 3 (dropWhile is_space text)))))"

text \<open>
  \<open>Python.python_absorb\<close>. The slice \<open>sections[i-1:i+1]\<close> is the pair at \<open>i-1\<close> and \<open>i\<close>
  for \<open>0 < i\<close>; at \<open>i = 0\<close> in a longer list it is the empty slice before the last
  section.
\<close>

definition replace_pair :: "nat \<Rightarrow> Section \<Rightarrow> Section list \<Rightarrow> Section list" where
  "replace_pair i merged sections =
     (if i = 0 \<and> 1 < length sections
      then take (length sections - 1) (sections[0 := merged]) @ [merged]
             @ drop (length sections - 1) sections
      else take (i - 1) sections @ [merged] @ drop (Suc i) sections)"

definition python_absorb :: body where
  "python_absorb sections i =
     (if length sections \<le> i then None
      else let previous = sections ! prev i sections; cur = sections ! i in
        if CHR ''@'' \<in> set (scope previous)
        then Some (replace_pair i
                     (cur\<lparr>docs_text := docs_text previous @ docs_text cur,
                          code_text := code_text previous @ code_text cur\<rparr>) sections,
                   Some i)
        else Some (sections, None))"

section \<open>Strategies and \<open>parse\<close>\<close>

text \<open>
  Modelled from the spec: the class \<open>ParsingStrategy\<close> of \<open>languages/utils.py\<close>, an
  ordered list of passes known by the names of their methods, with \<open>insert(0, pass)\<close> and
  \<open>insert_before(name, pass)\<close>, which puts the pass before the first pass of that name
  and is \<open>None\<close> when there is none.
\<close>

type_synonym strategy = "(string \<times> pass) list"

fun insert_before :: "string \<Rightarrow> string \<times> pass \<Rightarrow> strategy \<Rightarrow> strategy option" where
  "insert_before n x [] = None"
| "insert_before n x (y # ys) =
     (if fst y = n then Some (x # y # ys) else map_option (Cons y) (insert_before n x ys))"

text \<open>\<open>Language.strategy\<close> and the \<open>strategy\<close> methods of the mixins, each applied to
  what \<open>super().strategy()\<close> returned.\<close>

definition Language_strategy :: "anchored \<Rightarrow> strategy" where
  "Language_strategy scope_keywords =
     [(''set_sections_levels'', iterate_sections 0 set_sections_levels),
      (''strip_docs_indentation'', iterate_sections 0 strip_docs_indentation),
      (''set_sections_levels'', iterate_sections 0 set_sections_levels),
      (''merge_up'', iterate_sections 1 (merge_up scope_keywords)),
      (''set_sections_levels'', iterate_sections 0 set_sections_levels),
      (''merge_down'', iterate_sections 1 merge_down),
      (''set_sections_levels'', iterate_sections 0 set_sections_levels),
      (''absorb'', iterate_sections 1 absorb)]"

definition InlineCommentLanguage_strategy ::
  "string \<Rightarrow> (string \<Rightarrow> bool) \<Rightarrow> strategy \<Rightarrow> strategy" where
  "InlineCommentLanguage_strategy delim ignored base =
     (''parse_inline'', iterate_sections 0 (parse_inline delim ignored)) # base"

definition MultilineCommentLanguage_strategy :: "string \<Rightarrow> string \<Rightarrow> strategy \<Rightarrow> strategy" where
  "MultilineCommentLanguage_strategy multistart multiend base =
     (''parse_multiline'', iterate_sections 0 (parse_multiline multistart multiend)) # base"

definition IndentBasedLanguage_strategy :: "anchored \<Rightarrow> strategy \<Rightarrow> strategy option" where
  "IndentBasedLanguage_strategy scope_keywords base =
     insert_before ''merge_up''
       (''split_by_scopes'', iterate_sections 0 (split_by_scopes scope_keywords)) base"

text \<open>
  \<open>Python.strategy\<close>; the classes after \<open>Python\<close> in its method resolution order are
  \<open>IndentBasedLanguage\<close>, \<open>MultilineCommentLanguage\<close>, \<open>InlineCommentLanguage\<close> and
  \<open>Language\<close>.
\<close>

definition no_scope_keywords :: anchored where
  "no_scope_keywords text = None"

definition Python_strategy :: "strategy option" where
  \<open>Python_strategy =
     Option.bind
       (IndentBasedLanguage_strategy python_scope_keywords
          (MultilineCommentLanguage_strategy ''"""'' ''"""''
             (InlineCommentLanguage_strategy ''#'' python_ignored
                (Language_strategy python_scope_keywords))))
       (insert_before ''absorb'' (''python_absorb'', iterate_sections 1 python_absorb))\<close>

text \<open>\<open>Language.parse\<close>, given the value of \<open>self.strategy()\<close>.\<close>

fun apply_passes :: "pass list \<Rightarrow> Section list \<Rightarrow> Section list option" where
  "apply_passes [] sections = Some sections"
| "apply_passes (method # methods) sections = Option.bind (method sections) (apply_passes methods)"

definition Language_parse :: "strategy \<Rightarrow> string \<Rightarrow> Section list option" where
  "Language_parse strategy code =
     map_option (filter (\<lambda>section. has_code section \<or> has_docs section))
       (apply_passes (map snd strategy) [new_Section [] code])"

text \<open>\<open>PlainText.parse\<close>, which \<open>Markdown\<close> inherits.\<close>

definition PlainText_parse :: "string \<Rightarrow> Section list" where
  "PlainText_parse code = [new_Section code []]"

text \<open>
  \<open>parse\<close> as the class of the instance resolves it; \<open>strategy\<close> is the value of
  \<open>self.strategy()\<close>, which only \<open>Language.parse\<close> reads.
\<close>

definition parse :: "language_class \<Rightarrow> strategy \<Rightarrow> string \<Rightarrow> Section list option" where
  "parse c strategy code =
     (if c = PlainText \<or> c = Markdown then Some (PlainText_parse code)
      else Language_parse strategy code)"

definition Python_parse :: "string \<Rightarrow> Section list option" where
  "Python_parse code = Option.bind Python_strategy (\<lambda>strategy. parse Python strategy code)"

text \<open>
  \<open>Perl\<close> is an \<open>InlineCommentLanguage\<close> with the delimiter \<open>#\<close>, no ignored pattern and
  no scope keyword.
\<close>

definition no_ignored :: "string \<Rightarrow> bool" where
  "no_ignored text \<longleftrightarrow> False"

definition Perl_strategy :: strategy where
  "Perl_strategy =
     InlineCommentLanguage_strategy ''#'' no_ignored (Language_strategy no_scope_keywords)"

section \<open>Where a text stands\<close>

text \<open>
  Notions for the statements about the text of a line: \<open>within k text\<close> says that \<open>k\<close> is
  a stretch of \<open>text\<close>; \<open>holds_line l text\<close> says that \<open>l\<close> is a stretch of \<open>text\<close> that
  begins at a line start; \<open>in_code P sections\<close> says that the code text of some section
  satisfies \<open>P\<close>.
\<close>

definition within :: "string \<Rightarrow> string \<Rightarrow> bool" where
  "within k text \<longleftrightarrow> (\<exists>u v. text = u @ k @ v)"

definition holds_line :: "string \<Rightarrow> string \<Rightarrow> bool" where
  "holds_line l text \<longleftrightarrow> (\<exists>u v. text = u @ l @ v \<and> (u = [] \<or> last u = nl))"

definition in_code :: "(string \<Rightarrow> bool) \<Rightarrow> Section list \<Rightarrow> bool" where
  "in_code P sections \<longleftrightarrow> (\<exists>s \<in> set sections. P (code_text s))"

section \<open>File names\<close>

lemma transform_filename_substitute:
  "map_of (filename_substitutes self) filename = Some substitute
   \<Longrightarrow> transform_filename self filename = substitute"
  by (simp add: transform_filename_def)

lemma transform_filename_other:
  "map_of (filename_substitutes self) filename = None
   \<Longrightarrow> transform_filename self filename =
         (if list_ex (endswith filename) (extensions self) then filename @ ''.html''
          else filename)"
  by (simp add: transform_filename_def)

text \<open>
  C2. The exact substitutions come first and a file name with no known extension is
  returned as it is, but a file name that ends with an extension of the language keeps
  it: \<open>.html\<close> is appended, the extension is not replaced. For \<open>Python\<close>, \<open>foo.py\<close> becomes
  \<open>foo.py.html\<close>, where the docstring of \<open>transform_filename\<close> promises \<open>foo.html\<close>.
\<close>

theorem transform_filename_appends_html:
  "transform_filename (language_of Python) ''foo.py'' = ''foo.py.html''"
  by (simp add: transform_filename_def language_of_def endswith_def)

section \<open>Building the registry\<close>

lemma map_of_store_extensions:
  "map_of (store_extensions inst m) ext =
     (if ext \<in> set (extensions inst) then Some inst else map_of m ext)"
proof -
  have "map_of (fold (\<lambda>extension m'. AList.update extension inst m') es m) ext =
          (if ext \<in> set es then Some inst else map_of m ext)" for es
    by (induction es arbitrary: m) (auto simp: update_conv')
  then show ?thesis by (simp add: store_extensions_def)
qed

lemma map_of_fold_store:
  "map_of (fold store_extensions insts m) ext =
     (case find (\<lambda>l. ext \<in> set (extensions l)) (rev insts) of
        Some l \<Rightarrow> Some l | None \<Rightarrow> map_of m ext)"
proof (induction insts arbitrary: m rule: rev_induct)
  case Nil
  then show ?case by simp
next
  case (snoc x xs)
  then show ?case by (simp add: map_of_store_extensions)
qed

lemma builtin_extensions_distinct:
  "distinct (concat (map (\<lambda>c. extensions (language_of c)) languages))"
  by (simp add: languages_def language_of_def)

text \<open>
  The registry maps an extension to the last instance of the list that declares it; no
  extension is declared by two of the classes in \<open>languages\<close>, so nothing is replaced.
\<close>

lemma extensions_mapping_lookup:
  "map_of extensions_mapping ext =
     find (\<lambda>l. ext \<in> set (extensions l)) (rev (map language_of languages))"
  by (simp add: extensions_mapping_def map_of_fold_store split: option.split)

section \<open>Looking a language up\<close>

lemmas registry_defs =
  extensions_mapping_def store_extensions_def languages_def language_of_def

lemma by_name_Some: "by_name m n = Some l \<Longrightarrow> name l = n \<and> l \<in> snd ` set m"
  unfolding by_name_def by (auto simp: find_Some_iff)

lemma by_name_None: "by_name m n = None \<longleftrightarrow> n \<notin> name ` snd ` set m"
  unfolding by_name_def by (auto simp: find_None_iff)

lemma builtin_names:
  "name ` snd ` set extensions_mapping = set (map class_name languages)"
  by (simp add: registry_defs)

text \<open>
  C4, as the code has it. A forced language name is compared with \<open>==\<close>: when some
  definition of the registry has exactly that name, such a definition is returned, and
  when none has exactly that name, \<open>ValueError\<close> is raised.
\<close>

theorem forced_language_exact_name:
  "(lang \<in> name ` snd ` set m \<longrightarrow>
      (\<exists>l. l \<in> snd ` set m \<and> name l = lang \<and>
           get_language guess_lexer m source code (Some lang) = Inr (Some l))) \<and>
   (lang \<notin> name ` snd ` set m \<longrightarrow>
      get_language guess_lexer m source code (Some lang) =
        Inl (ValueError (''Unknown forced language: '' @ lang)))"
proof (cases "by_name m lang")
  case None
  then have "lang \<notin> name ` snd ` set m" by (simp add: by_name_None)
  with None show ?thesis by (simp add: get_language_def)
next
  case (Some l)
  then have "name l = lang" "l \<in> snd ` set m" using by_name_Some by blast+
  with Some show ?thesis by (auto simp: get_language_def)
qed

theorem forced_language_exact_name_witness:
  "(\<exists>l. l \<in> snd ` set extensions_mapping \<and> name l = ''Python'' \<and>
        get_language no_guess extensions_mapping ''main.py'' '''' (Some ''Python'') =
          Inr (Some l)) \<and>
   get_language no_guess extensions_mapping ''main.py'' '''' (Some ''Cobol'') =
     Inl (ValueError ''Unknown forced language: Cobol'')"
proof -
  have a: "''Python'' \<in> name ` snd ` set extensions_mapping"
    unfolding builtin_names by (simp add: languages_def)
  have b: "''Cobol'' \<notin> name ` snd ` set extensions_mapping"
    unfolding builtin_names by (simp add: languages_def)
  show ?thesis
    using forced_language_exact_name [of "''Python''" extensions_mapping no_guess "''main.py''" "''''"]
      forced_language_exact_name [of "''Cobol''" extensions_mapping no_guess "''main.py''" "''''"]
      a b
    by simp
qed

text \<open>
  C4 as stated fails: the name of \<open>Python\<close> matches \<open>python\<close> when case is ignored, and
  \<open>Python\<close> is in the registry, yet forcing \<open>python\<close> raises.
\<close>

theorem forced_language_case_counterexample:
  "lower (name (language_of Python)) = lower ''python'' \<and>
   language_of Python \<in> snd ` set extensions_mapping \<and>
   get_language no_guess extensions_mapping ''main.py'' '''' (Some ''python'') =
     Inl (ValueError ''Unknown forced language: python'')"
  by (simp add: get_language_def by_name_def registry_defs lower_def lower_char_def)

lemma unforced_never_raises:
  "\<exists>r. get_language guess_lexer m source code None = Inr r"
  by (auto simp: get_language_def split: option.splits)

text \<open>
  C9. With no forced language, when the extension of the file name is not a key of the
  registry (or the file name has none) and the guesser raises or names a lexer that is the
  name of no definition, \<open>get_language\<close> returns \<open>None\<close>; it raises nothing.
\<close>

theorem unknown_language_not_found:
  assumes "case extension_group (basename source) of
             None \<Rightarrow> True | Some ext \<Rightarrow> map_of m ext = None"
    and "case guess_lexer code of
           None \<Rightarrow> True | Some lexer_name \<Rightarrow> lower lexer_name \<notin> name ` snd ` set m"
  shows "get_language guess_lexer m source code None = Inr None"
proof -
  have "guess_language guess_lexer m code = None"
    using assms(2) by (auto simp: guess_language_def by_name_None split: option.splits)
  with assms(1) show ?thesis
    by (auto simp: get_language_def split: option.splits)
qed

theorem unknown_language_not_found_witness:
  "get_language no_guess extensions_mapping ''docs/notes.xyz'' ''hello'' None = Inr None \<and>
   get_language guess_text extensions_mapping ''README'' ''hello'' None = Inr None"
proof -
  have e1: "extension_group (basename ''docs/notes.xyz'') = Some ''.xyz''"
    by (simp add: extension_group_def)
  have e2: "extension_group (basename ''README'') = None"
    by (simp add: extension_group_def)
  have m1: "map_of extensions_mapping ''.xyz'' = None"
    by (simp add: registry_defs)
  have g: "lower ''Text only'' \<notin> name ` snd ` set extensions_mapping"
    unfolding builtin_names by (simp add: languages_def lower_def lower_char_def)
  have "get_language no_guess extensions_mapping ''docs/notes.xyz'' ''hello'' None = Inr None"
    by (rule unknown_language_not_found) (simp_all add: e1 m1 no_guess_def del: basename.simps)
  moreover have "get_language guess_text extensions_mapping ''README'' ''hello'' None = Inr None"
    by (rule unknown_language_not_found) (simp_all add: e2 g guess_text_def del: basename.simps)
  ultimately show ?thesis by simp
qed

section \<open>Evaluating the passes\<close>

lemmas string_defs = is_blank_def is_space_def is_nl_def is_word_def lstrip_def rstrip_def
  strip_def startswith_def last_line_def

lemmas section_defs = new_Section_def has_code_def has_docs_def split_code_by_pos_def
  split_section_by_regex_def prev_def splice_def delete_at_def sub_lines_def

lemmas pattern_defs = search_def at_line_start_def finditer_def indent_prefix_def doc_line_def
  inline_re_def inline_prefix_def multiline_re_def strip_multistart_def indent_re_def
  python_scope_keywords_def python_ignored_def no_scope_keywords_def no_ignored_def

lemmas body_defs = set_sections_levels_def strip_docs_indentation_def merge_up_def
  merge_down_def absorb_def strip_inline_def parse_inline_def parse_multiline_def
  split_by_scopes_def replace_pair_def python_absorb_def

lemmas strategy_defs = Language_strategy_def InlineCommentLanguage_strategy_def
  MultilineCommentLanguage_strategy_def IndentBasedLanguage_strategy_def Python_strategy_def
  Perl_strategy_def Language_parse_def PlainText_parse_def parse_def Python_parse_def
  iterate_sections_def

lemmas parse_eval = strategy_defs body_defs pattern_defs section_defs string_defs
  iterate_from.simps Let_def

text \<open>
  A check of the helpers modelled above on the example of documentation written under a
  definition line: one section, with the comment as documentation and both code lines
  as code.
\<close>

lemma merge_direction_example:
  "Python_parse ''def f():\<newline>    # doc\<newline>    pass\<newline>'' =
     Some [\<lparr>docs_text = ''doc\<newline>'', code_text = ''def f():\<newline>\<newline>    pass\<newline>'',
             level = 0, scope = ''def'', meta = Some ''stripped''\<rparr>]"
  by (simp add: parse_eval)

section \<open>Plain text\<close>

text \<open>
  C10. For \<open>PlainText\<close> and \<open>Markdown\<close>, \<open>parse\<close> returns exactly one section, whose
  documentation text is the whole input and whose code text is empty, whatever the
  strategy of the instance is: no pass is applied.
\<close>

theorem plain_text_parse_single_section:
  "parse PlainText strategy code = Some [new_Section code []] \<and>
   parse Markdown strategy code = Some [new_Section code []] \<and>
   docs_text (new_Section code []) = code \<and> code_text (new_Section code []) = []"
  by (simp add: parse_def PlainText_parse_def new_Section_def)

section \<open>The final filter\<close>

text \<open>
  C8, as the code has it. For every class, every strategy and every input, except
  \<open>PlainText\<close> and \<open>Markdown\<close> on the empty input, every section of the sequence that
  \<open>parse\<close> returns has documentation text or code text that is not empty: \<open>Language.parse\<close>
  filters the empty sections out, and \<open>PlainText.parse\<close>, which \<open>Markdown\<close> inherits,
  returns the input as the documentation of its one section. For \<open>PlainText\<close> and
  \<open>Markdown\<close> on the empty input, \<open>parse\<close> returns one section whose two texts are empty.
\<close>

theorem parse_no_empty_section:
  assumes "parse c strategy code = Some sections"
  shows "(code \<noteq> [] \<or> (c \<noteq> PlainText \<and> c \<noteq> Markdown) \<longrightarrow>
            list_all (\<lambda>section. docs_text section \<noteq> [] \<or> code_text section \<noteq> []) sections) \<and>
         (code = [] \<and> (c = PlainText \<or> c = Markdown) \<longrightarrow>
            sections = [new_Section [] []] \<and>
            docs_text (new_Section [] []) = [] \<and> code_text (new_Section [] []) = [])"
proof (cases "c = PlainText \<or> c = Markdown")
  case True
  with assms have "sections = [new_Section code []]"
    by (auto simp: parse_def PlainText_parse_def)
  with True show ?thesis by (auto simp: new_Section_def)
next
  case False
  with assms obtain raw where
    "sections = filter (\<lambda>section. has_code section \<or> has_docs section) raw"
    by (auto simp: parse_def Language_parse_def)
  with False show ?thesis
    by (auto simp: has_code_def has_docs_def list_all_iff)
qed

lemma perl_example:
  "parse Perl Perl_strategy ''# doc\<newline>x = 1\<newline>'' =
     Some [\<lparr>docs_text = ''doc\<newline>'', code_text = ''x = 1\<newline>'', level = 0, scope = [],
             meta = Some ''stripped''\<rparr>]"
  by (simp add: parse_eval)

lemma markdown_example:
  "parse Markdown (Language_strategy no_scope_keywords) ''hello'' =
     Some [new_Section ''hello'' []]"
  by (simp add: parse_def PlainText_parse_def)

lemma markdown_empty_example:
  "parse Markdown (Language_strategy no_scope_keywords) [] = Some [new_Section [] []]"
  by (simp add: parse_def PlainText_parse_def)

theorem parse_no_empty_section_witness:
  "list_all (\<lambda>section. docs_text section \<noteq> [] \<or> code_text section \<noteq> [])
     [\<lparr>docs_text = ''doc\<newline>'', code_text = ''x = 1\<newline>'', level = 0, scope = [],
        meta = Some ''stripped''\<rparr>] \<and>
   list_all (\<lambda>section. docs_text section \<noteq> [] \<or> code_text section \<noteq> [])
     [new_Section ''hello'' []] \<and>
   [new_Section [] []] = [new_Section [] []] \<and>
   docs_text (new_Section [] []) = [] \<and> code_text (new_Section [] []) = []"
proof -
  have a: "''# doc\<newline>x = 1\<newline>'' \<noteq> [] \<or> (Perl \<noteq> PlainText \<and> Perl \<noteq> Markdown)" by simp
  have b: "''hello'' \<noteq> [] \<or> (Markdown \<noteq> PlainText \<and> Markdown \<noteq> Markdown)" by simp
  have c: "([]::string) = [] \<and> (Markdown = PlainText \<or> Markdown = Markdown)" by simp
  from parse_no_empty_section [OF perl_example] a
  have 1: "list_all (\<lambda>section. docs_text section \<noteq> [] \<or> code_text section \<noteq> [])
     [\<lparr>docs_text = ''doc\<newline>'', code_text = ''x = 1\<newline>'', level = 0, scope = [],
        meta = Some ''stripped''\<rparr>]" by blast
  from parse_no_empty_section [OF markdown_example] b
  have 2: "list_all (\<lambda>section. docs_text section \<noteq> [] \<or> code_text section \<noteq> [])
     [new_Section ''hello'' []]" by blast
  from parse_no_empty_section [OF markdown_empty_example] c
  have 3: "[new_Section [] []] = [new_Section [] []] \<and>
    docs_text (new_Section [] []) = [] \<and> code_text (new_Section [] []) = []" by blast
  from 1 2 3 show ?thesis by blast
qed

text \<open>
  C8 as stated fails: for \<open>Markdown\<close> and the empty input, \<open>parse\<close> returns one section
  whose documentation text and code text are both empty.
\<close>

theorem markdown_empty_section_counterexample:
  "parse Markdown (Language_strategy no_scope_keywords) [] = Some [new_Section [] []] \<and>
   docs_text (new_Section [] []) = [] \<and> code_text (new_Section [] []) = []"
  by (simp add: parse_def PlainText_parse_def new_Section_def)

section \<open>Merging documentation down\<close>

lemma replace_and_delete:
  assumes "0 < i" and "i < length xs"
  shows "take i (xs[i - 1 := y]) @ drop (Suc i) (xs[i - 1 := y]) =
           take (i - 1) xs @ [y] @ drop (Suc i) xs"
proof -
  from assms(1) obtain j where j: "i = Suc j" by (cases i) auto
  with assms(2) have "take (Suc j) (xs[j := y]) = take j xs @ [y]"
    by (simp add: take_Suc_conv_app_nth)
  with j show ?thesis by simp
qed

text \<open>
  C5, as the code has it. At a position \<open>i\<close> where the previous section has documentation
  and no code and the current section has code and no documentation, \<open>merge_down\<close> gives
  the code of the current section to the previous section (a concatenation, the previous
  code being empty) and deletes the current section; the scope label of the previous
  section becomes the label of the current section whenever the current section has
  one, and stays as it was only when the current section has none.
\<close>

theorem merge_down_merges:
  assumes "0 < i" and "i < length sections"
    and "has_docs (sections ! (i - 1))" and "\<not> has_code (sections ! (i - 1))"
    and "has_code (sections ! i)" and "\<not> has_docs (sections ! i)"
  shows "merge_down sections i =
           Some (take (i - 1) sections
                   @ [(sections ! (i - 1))
                        \<lparr>code_text := code_text (sections ! (i - 1)) @ code_text (sections ! i),
                         scope := (if scope (sections ! i) \<noteq> [] then scope (sections ! i)
                                   else scope (sections ! (i - 1)))\<rparr>]
                   @ drop (Suc i) sections, None)"
proof -
  have "code_text (sections ! (i - 1)) = []"
    using assms(4) by (simp add: has_code_def)
  then show ?thesis
    using assms replace_and_delete [OF assms(1,2)]
    by (simp add: merge_down_def prev_def delete_at_def splice_def Let_def)
qed

theorem merge_down_merges_witness:
  "merge_down [(new_Section ''d'' [])\<lparr>scope := ''class''\<rparr>, new_Section [] ''x'',
               new_Section [] ''y''] 1 =
     Some ([(new_Section ''d'' ''x'')\<lparr>scope := ''class''\<rparr>, new_Section [] ''y''], None)"
  using merge_down_merges [of 1 "[(new_Section ''d'' [])\<lparr>scope := ''class''\<rparr>,
      new_Section [] ''x'', new_Section [] ''y'']"]
  by (simp add: has_code_def has_docs_def new_Section_def)

text \<open>
  C5 as stated fails: the previous section has the label \<open>class\<close>, so by the claim it
  keeps it, but \<open>merge_down\<close> replaces it by the label \<open>def\<close> of the current section.
\<close>

theorem merge_down_scope_counterexample:
  "has_docs ((new_Section ''d'' [])\<lparr>scope := ''class''\<rparr>) \<and>
   \<not> has_code ((new_Section ''d'' [])\<lparr>scope := ''class''\<rparr>) \<and>
   has_code ((new_Section [] ''x'')\<lparr>scope := ''def''\<rparr>) \<and>
   \<not> has_docs ((new_Section [] ''x'')\<lparr>scope := ''def''\<rparr>) \<and>
   merge_down [(new_Section ''d'' [])\<lparr>scope := ''class''\<rparr>,
               (new_Section [] ''x'')\<lparr>scope := ''def''\<rparr>] 1 =
     Some ([(new_Section ''d'' ''x'')\<lparr>scope := ''def''\<rparr>], None)"
  by (simp add: merge_down_def prev_def delete_at_def splice_def has_code_def has_docs_def
      new_Section_def)

section \<open>Decorators\<close>

lemma python_strategy_names:
  "map_option (map fst) Python_strategy =
     Some [''parse_multiline'', ''parse_inline'', ''set_sections_levels'',
           ''strip_docs_indentation'', ''set_sections_levels'', ''split_by_scopes'',
           ''merge_up'', ''set_sections_levels'', ''merge_down'', ''set_sections_levels'',
           ''python_absorb'', ''absorb'']"
  by (simp add: strategy_defs)

lemma python_absorb_step:
  assumes "0 < i" and "i < length sections"
    and "CHR ''@'' \<in> set (scope (sections ! (i - 1)))"
  shows "python_absorb sections i =
           Some (take (i - 1) sections
                   @ [(sections ! i)
                        \<lparr>docs_text := docs_text (sections ! (i - 1)) @ docs_text (sections ! i),
                         code_text := code_text (sections ! (i - 1)) @ code_text (sections ! i)\<rparr>]
                   @ drop (Suc i) sections, Some i)"
  using assms by (simp add: python_absorb_def prev_def replace_pair_def Let_def)

lemma decorator_example:
  "Python_parse ''@deco\<newline>def f(): pass\<newline>'' =
     Some [\<lparr>docs_text = [], code_text = ''@deco\<newline>def f(): pass'', level = 0,
             scope = ''def'', meta = None\<rparr>]"
  by (simp add: parse_eval)

text \<open>
  C7. \<open>python_absorb\<close> stands immediately before \<open>absorb\<close> in the strategy of \<open>Python\<close>.
  At a position whose predecessor has a scope label containing \<open>@\<close>, it puts the
  documentation and the code of the predecessor in front of those of the current section
  and replaces the two sections by the merged one. The input
  \<open>@deco\<close>, \<open>def f(): pass\<close> is parsed to a single section.
\<close>

theorem python_absorb_decorator:
  assumes "0 < i" and "i < length sections"
    and "CHR ''@'' \<in> set (scope (sections ! (i - 1)))"
  shows "python_absorb sections i =
           Some (take (i - 1) sections
                   @ [(sections ! i)
                        \<lparr>docs_text := docs_text (sections ! (i - 1)) @ docs_text (sections ! i),
                         code_text := code_text (sections ! (i - 1)) @ code_text (sections ! i)\<rparr>]
                   @ drop (Suc i) sections, Some i) \<and>
         map_option (map fst) Python_strategy =
           Some [''parse_multiline'', ''parse_inline'', ''set_sections_levels'',
                 ''strip_docs_indentation'', ''set_sections_levels'', ''split_by_scopes'',
                 ''merge_up'', ''set_sections_levels'', ''merge_down'',
                 ''set_sections_levels'', ''python_absorb'', ''absorb''] \<and>
         Python_parse ''@deco\<newline>def f(): pass\<newline>'' =
           Some [\<lparr>docs_text = [], code_text = ''@deco\<newline>def f(): pass'', level = 0,
                   scope = ''def'', meta = None\<rparr>]"
  using python_absorb_step [OF assms] python_strategy_names decorator_example by simp

theorem python_absorb_decorator_witness:
  "python_absorb [(new_Section [] ''@deco\<newline>'')\<lparr>scope := ''@deco''\<rparr>,
                  (new_Section [] ''def f(): pass'')\<lparr>scope := ''def''\<rparr>] 1 =
     Some ([(new_Section [] ''@deco\<newline>def f(): pass'')\<lparr>scope := ''def''\<rparr>], Some 1)"
  using python_absorb_decorator [of 1 "[(new_Section [] ''@deco\<newline>'')\<lparr>scope := ''@deco''\<rparr>,
      (new_Section [] ''def f(): pass'')\<lparr>scope := ''def''\<rparr>]"]
  by (simp add: new_Section_def)

section \<open>Code text that is not preserved\<close>

text \<open>
  C1. In the \<open>Python\<close> input below the decorator line is followed by a comment line. The
  decorator becomes the second half of a split, which loses its line feed, and
  \<open>python_absorb\<close> then puts its code directly in front of the code of the next section:
  the lines \<open>@deco\<close> and \<open>def f(): pass\<close> of the input come out as the one line
  \<open>@decodef f(): pass\<close>.
\<close>

theorem python_parse_glues_lines:
  "map_option (map code_text)
     (Python_parse ''x = 1\<newline>@deco\<newline># comment\<newline>def f(): pass\<newline>'') =
     Some [''x = 1\<newline>'', ''@decodef f(): pass\<newline>'']"
  by (simp add: parse_eval)

lemma glued_lines_without_comment:
  "map_option (map code_text) (Python_parse ''    x = 1\<newline>    @deco\<newline>y = 2\<newline>'') =
     Some [''    x = 1\<newline>'', ''    @decoy = 2\<newline>'']"
  by (simp add: parse_eval)

section \<open>Shebang lines\<close>

subsection \<open>Invariants of a pass\<close>

lemma iterate_from_invariant_aux:
  assumes "iterate_from f i sections = Some out"
  shows "(\<forall>secs j secs' r. lo \<le> j \<and> j < length secs \<and> Inv secs \<and> f secs j = Some (secs', r)
      \<longrightarrow> Inv secs' \<and> (\<forall>k. r = Some k \<longrightarrow> lo \<le> k))
   \<longrightarrow> lo \<le> i \<longrightarrow> Inv sections \<longrightarrow> Inv out"
proof (rule iterate_from.raw_induct [OF _ assms, where P = "\<lambda>f i sections out.
    (\<forall>secs j secs' r. lo \<le> j \<and> j < length secs \<and> Inv secs \<and> f secs j = Some (secs', r)
      \<longrightarrow> Inv secs' \<and> (\<forall>k. r = Some k \<longrightarrow> lo \<le> k))
    \<longrightarrow> lo \<le> i \<longrightarrow> Inv sections \<longrightarrow> Inv out"])
  fix approx :: "body \<Rightarrow> nat \<Rightarrow> Section list \<Rightarrow> Section list option"
  fix f i sections out
  assume IH: "\<And>f i sections out. approx f i sections = Some out \<Longrightarrow>
      (\<forall>secs j secs' r. lo \<le> j \<and> j < length secs \<and> Inv secs \<and> f secs j = Some (secs', r)
        \<longrightarrow> Inv secs' \<and> (\<forall>k. r = Some k \<longrightarrow> lo \<le> k))
      \<longrightarrow> lo \<le> i \<longrightarrow> Inv sections \<longrightarrow> Inv out"
    and eq: "(if i < length sections
        then Option.bind (f sections i)
               (\<lambda>(sections', r). approx f (case r of None \<Rightarrow> Suc i | Some j \<Rightarrow> j) sections')
        else Some sections) = Some out"
  show "(\<forall>secs j secs' r. lo \<le> j \<and> j < length secs \<and> Inv secs \<and> f secs j = Some (secs', r)
      \<longrightarrow> Inv secs' \<and> (\<forall>k. r = Some k \<longrightarrow> lo \<le> k))
   \<longrightarrow> lo \<le> i \<longrightarrow> Inv sections \<longrightarrow> Inv out"
  proof (intro impI)
    assume step: "\<forall>secs j secs' r. lo \<le> j \<and> j < length secs \<and> Inv secs \<and> f secs j = Some (secs', r)
      \<longrightarrow> Inv secs' \<and> (\<forall>k. r = Some k \<longrightarrow> lo \<le> k)"
      and lo: "lo \<le> i" and inv: "Inv sections"
    show "Inv out"
    proof (cases "i < length sections")
      case False
      with eq inv show ?thesis by simp
    next
      case True
      with eq obtain secs' r where
        body: "f sections i = Some (secs', r)"
        and rest: "approx f (case r of None \<Rightarrow> Suc i | Some j \<Rightarrow> j) secs' = Some out"
        by (auto simp: bind_eq_Some_conv)
      from step lo True inv body have inv': "Inv secs'" and r: "\<forall>k. r = Some k \<longrightarrow> lo \<le> k"
        by blast+
      from r lo have nxt: "lo \<le> (case r of None \<Rightarrow> Suc i | Some j \<Rightarrow> j)"
        by (cases r) auto
      show ?thesis
        by (rule IH [OF rest, THEN mp, THEN mp, THEN mp, OF step nxt inv'])
    qed
  qed
qed

lemma iterate_sections_invariant:
  assumes "iterate_sections lo f sections = Some out" and "Inv sections"
    and "\<And>secs j secs' r. lo \<le> j \<Longrightarrow> j < length secs \<Longrightarrow> Inv secs \<Longrightarrow> f secs j = Some (secs', r)
           \<Longrightarrow> Inv secs' \<and> (\<forall>k. r = Some k \<longrightarrow> lo \<le> k)"
  shows "Inv out"
  using iterate_from_invariant_aux [of f lo sections out lo Inv] assms
  unfolding iterate_sections_def by blast

subsection \<open>Sections that an edit of the list leaves alone\<close>

lemma nth_in_removed:
  assumes "j < length xs" and "j \<noteq> i"
  shows "xs ! j \<in> set (take i xs @ drop (Suc i) xs)"
proof (cases "j < i")
  case True
  with assms(1) have "xs ! j = take i xs ! j" "j < length (take i xs)" by simp_all
  then show ?thesis by (metis Un_iff nth_mem set_append)
next
  case False
  with assms have "Suc i \<le> j" by simp
  with assms(1) have "xs ! j = drop (Suc i) xs ! (j - Suc i)" "j - Suc i < length (drop (Suc i) xs)"
    by simp_all
  then show ?thesis by (metis Un_iff nth_mem set_append)
qed

lemma nth_in_splice:
  assumes "j < length xs" and "j \<noteq> i"
  shows "xs ! j \<in> set (splice i new xs)"
  using nth_in_removed [OF assms] by (auto simp: splice_def)

lemma new_in_splice: "s \<in> set new \<Longrightarrow> s \<in> set (splice i new xs)"
  by (simp add: splice_def)

lemma in_code_nth:
  "in_code P sections \<longleftrightarrow> (\<exists>j < length sections. P (code_text (sections ! j)))"
  unfolding in_code_def by (metis in_set_conv_nth)

lemma in_codeI: "s \<in> set sections \<Longrightarrow> P (code_text s) \<Longrightarrow> in_code P sections"
  by (auto simp: in_code_def)

lemma in_code_same_codes:
  assumes "map code_text secs' = map code_text secs"
  shows "in_code P secs' = in_code P secs"
proof -
  have "code_text ` set secs' = code_text ` set secs"
    using assms by (metis set_map)
  then show ?thesis unfolding in_code_def by (metis (no_types, lifting) image_iff)
qed

subsection \<open>A stretch without line feed under trimming and cutting\<close>

lemma within_rev: "within (rev k) (rev t) = within k t"
proof
  assume "within (rev k) (rev t)"
  then obtain u v where "rev t = u @ rev k @ v" unfolding within_def by blast
  then have "rev (rev t) = rev (u @ rev k @ v)" by simp
  then have "t = rev v @ k @ rev u" by simp
  then show "within k t" unfolding within_def by blast
next
  assume "within k t"
  then obtain u v where "t = u @ k @ v" unfolding within_def by blast
  then have "rev t = rev v @ rev k @ rev u" by simp
  then show "within (rev k) (rev t)" unfolding within_def by blast
qed

lemma within_dropWhile:
  assumes "k \<noteq> []" and "\<forall>c \<in> set k. \<not> P c" and "within k t"
  shows "within k (dropWhile P t)"
proof -
  from assms(3) obtain u v where t: "t = u @ k @ v" unfolding within_def by blast
  from assms(1,2) obtain c cs where k: "k = c # cs" "\<not> P c" by (cases k) auto
  show ?thesis
  proof (cases "\<forall>x \<in> set u. P x")
    case True
    then have "dropWhile P (u @ k @ v) = dropWhile P (k @ v)"
      by (simp add: dropWhile_append2)
    also have "\<dots> = [] @ k @ v" using k by simp
    finally show ?thesis unfolding t within_def by blast
  next
    case False
    then obtain x where "x \<in> set u" "\<not> P x" by blast
    then have "dropWhile P (u @ k @ v) = dropWhile P u @ k @ v"
      by (rule dropWhile_append1)
    then show ?thesis unfolding t within_def by blast
  qed
qed

lemma within_lstrip:
  assumes "k \<noteq> []" and "nl \<notin> set k" and "within k t"
  shows "within k (lstrip is_nl t)"
proof -
  have "\<forall>c \<in> set k. \<not> is_nl c" using assms(2) by (auto simp: is_nl_def)
  from within_dropWhile [OF assms(1) this assms(3)] show ?thesis by (simp add: lstrip_def)
qed

lemma within_rstrip:
  assumes "k \<noteq> []" and "nl \<notin> set k" and "within k t"
  shows "within k (rstrip is_nl t)"
proof -
  have a: "rev k \<noteq> []" using assms(1) by simp
  have b: "\<forall>c \<in> set (rev k). \<not> is_nl c" using assms(2) by (auto simp: is_nl_def)
  have c: "within (rev k) (rev t)" using assms(3) by (simp add: within_rev)
  from within_dropWhile [OF a b c] have "within (rev k) (rev (rev (dropWhile is_nl (rev t))))"
    by simp
  then have "within k (rev (dropWhile is_nl (rev t)))" by (simp only: within_rev)
  then show ?thesis by (simp add: rstrip_def)
qed

lemma within_strip:
  assumes "k \<noteq> []" and "nl \<notin> set k" and "within k t"
  shows "within k (strip is_nl t)"
  unfolding strip_def
  by (rule within_rstrip [OF assms(1,2) within_lstrip [OF assms]])

lemma within_prepend: "within k t \<Longrightarrow> within k (s @ t)"
proof -
  assume "within k t"
  then obtain u v where "t = u @ k @ v" unfolding within_def by blast
  then have "s @ t = (s @ u) @ k @ v" by simp
  then show ?thesis unfolding within_def by blast
qed

lemma within_append: "within k t \<Longrightarrow> within k (t @ s)"
proof -
  assume "within k t"
  then obtain u v where "t = u @ k @ v" unfolding within_def by blast
  then have "t @ s = u @ k @ (v @ s)" by simp
  then show ?thesis unfolding within_def by blast
qed

lemma within_nonempty: "k \<noteq> [] \<Longrightarrow> within k t \<Longrightarrow> t \<noteq> []"
  unfolding within_def by auto

lemma holds_line_within: "holds_line (k @ [nl]) t \<Longrightarrow> within k t"
proof -
  assume "holds_line (k @ [nl]) t"
  then obtain u v where "t = u @ (k @ [nl]) @ v" unfolding holds_line_def by blast
  then have "t = u @ k @ ([nl] @ v)" by simp
  then show ?thesis unfolding within_def by blast
qed

lemma within_cut:
  assumes "at_line_start t p" and "within k t" and "nl \<notin> set k"
  shows "within k (take p t) \<or> within k (drop p t)"
proof -
  from assms(2) obtain u v where t: "t = u @ k @ v" unfolding within_def by blast
  consider "p \<le> length u" | "length u + length k \<le> p" | "length u < p" "p < length u + length k"
    by linarith
  then show ?thesis
  proof cases
    case 1
    then have "drop p t = drop p u @ k @ v" by (simp add: t)
    then show ?thesis unfolding within_def by blast
  next
    case 2
    then have "take p t = u @ k @ take (p - (length u + length k)) v" by (simp add: t)
    then show ?thesis unfolding within_def by blast
  next
    case 3
    define q where "q = p - 1 - length u"
    from 3 have q: "q < length k" "p - 1 = length u + q" "p \<noteq> 0" by (simp_all add: q_def)
    then have "drop (p - 1) t = drop q k @ v" by (simp add: t)
    moreover from q(1) have "drop q k = k ! q # drop (Suc q) k" by (simp add: Cons_nth_drop_Suc)
    ultimately have "take 1 (drop (p - 1) t) = [k ! q]" by simp
    with assms(1) q(3) have "k ! q = nl" by (simp add: at_line_start_def)
    with q(1) assms(3) have False by (metis nth_mem)
    then show ?thesis ..
  qed
qed

lemma scan_first_line_start:
  "scan_first m bol pos cs = Some (start, stop, grp) \<Longrightarrow> cs = drop pos whole
   \<Longrightarrow> (bol \<longrightarrow> at_line_start whole pos) \<Longrightarrow> at_line_start whole start"
proof (induction cs arbitrary: pos bol)
  case Nil
  then show ?case by simp
next
  case (Cons c cs)
  show ?case
  proof (cases "bol \<and> m (c # cs) \<noteq> None")
    case True
    with Cons.prems(1) have "start = pos" by (auto split: option.splits prod.splits)
    with True Cons.prems(3) show ?thesis by simp
  next
    case False
    then have next_scan: "scan_first m (c = nl) (Suc pos) cs = Some (start, stop, grp)"
      using Cons.prems(1) by (auto split: option.splits if_splits)
    from Cons.prems(2) have d: "drop pos whole = c # cs" by simp
    then have cs: "cs = drop (Suc pos) whole" by (metis drop_Suc tl_drop list.sel(3))
    from d have "c = nl \<longrightarrow> at_line_start whole (Suc pos)"
      by (simp add: at_line_start_def)
    from Cons.IH [OF next_scan cs this] show ?thesis .
  qed
qed

lemma search_line_start:
  "search m whole pos = Some (start, stop, grp) \<Longrightarrow> at_line_start whole start"
  unfolding search_def by (rule scan_first_line_start [where whole = whole]) auto

lemma in_code_split:
  assumes "i < length secs" and "at_line_start (code_text (secs ! i)) p"
    and "nl \<notin> set k" and "in_code (within k) secs"
  shows "in_code (within k) (split_code_by_pos i p secs)"
proof -
  from assms(4) obtain j where j: "j < length secs" "within k (code_text (secs ! j))"
    unfolding in_code_nth by blast
  let ?a = "(secs ! i)\<lparr>code_text := take p (code_text (secs ! i))\<rparr>"
  let ?b = "new_Section [] (drop p (code_text (secs ! i)))"
  have eq: "split_code_by_pos i p secs = splice i [?a, ?b] secs"
    by (simp add: split_code_by_pos_def splice_def)
  show ?thesis
  proof (cases "j = i")
    case False
    from nth_in_splice [OF j(1) False] j(2) show ?thesis
      unfolding eq by (rule in_codeI)
  next
    case True
    with j(2) within_cut [OF assms(2) _ assms(3)]
    consider "within k (take p (code_text (secs ! i)))" | "within k (drop p (code_text (secs ! i)))"
      by blast
    then show ?thesis
    proof cases
      case 1
      have "?a \<in> set (splice i [?a, ?b] secs)" by (rule new_in_splice) simp
      moreover have "within k (code_text ?a)" using 1 by simp
      ultimately show ?thesis unfolding eq by (rule in_codeI)
    next
      case 2
      have "?b \<in> set (splice i [?a, ?b] secs)" by (rule new_in_splice) simp
      moreover have "within k (code_text ?b)" using 2 by (simp add: new_Section_def)
      ultimately show ?thesis unfolding eq by (rule in_codeI)
    qed
  qed
qed

lemma in_code_update:
  assumes "in_code P secs"
    and "j < length secs \<Longrightarrow> P (code_text (secs ! j)) \<Longrightarrow> P (code_text s)"
  shows "in_code P (secs[j := s])"
proof -
  from assms(1) obtain n where n: "n < length secs" "P (code_text (secs ! n))"
    unfolding in_code_nth by blast
  show ?thesis
  proof (cases "n = j")
    case True
    with n assms(2) have "P (code_text s)" by simp
    moreover from True n(1) have "(secs[j := s]) ! j = s" by simp
    ultimately show ?thesis unfolding in_code_nth using True n(1) by (metis length_list_update)
  next
    case False
    with n have "P (code_text ((secs[j := s]) ! n))" by simp
    with n(1) show ?thesis unfolding in_code_nth by (metis length_list_update)
  qed
qed

subsection \<open>The matches of the inline comment pattern around a shebang line\<close>

lemma lines_nl_nonempty: "s \<noteq> [] \<Longrightarrow> lines_nl s \<noteq> []"
  by (cases s) (auto split: list.splits)

lemma lines_nl_append:
  "xs = [] \<or> last xs = nl \<Longrightarrow> lines_nl (xs @ ys) = lines_nl xs @ lines_nl ys"
proof (induction xs)
  case Nil
  then show ?case by simp
next
  case (Cons c cs)
  show ?case
  proof (cases "cs = []")
    case True
    with Cons.prems show ?thesis by simp
  next
    case False
    with Cons.prems have "last cs = nl" by simp
    with Cons.IH have ih: "lines_nl (cs @ ys) = lines_nl cs @ lines_nl ys" by simp
    from False obtain l ls where "lines_nl cs = l # ls"
      using lines_nl_nonempty by (cases "lines_nl cs") auto
    with ih show ?thesis by simp
  qed
qed

lemma lines_nl_single: "nl \<notin> set xs \<Longrightarrow> lines_nl (xs @ [nl]) = [xs @ [nl]]"
  by (induction xs) auto

lemma concat_lines_nl: "concat (lines_nl s) = s"
  by (induction s) (auto split: list.splits)

lemma inline_scan_starts:
  "(start, stop, grp) \<in> set (inline_scan delim ignored pos run ls)
   \<Longrightarrow> pos - length run \<le> start"
proof (induction ls arbitrary: pos run)
  case Nil
  then show ?case by (simp split: if_splits)
next
  case (Cons l ls)
  show ?case
  proof (cases "doc_line delim ignored (concat (l # ls))")
    case True
    with Cons.prems have "(start, stop, grp) \<in> set (inline_scan delim ignored (pos + length l) (run @ l) ls)"
      by simp
    from Cons.IH [OF this] show ?thesis by simp
  next
    case False
    with Cons.prems consider "(start, stop, grp) = (pos - length run, pos, run)"
      | "(start, stop, grp) \<in> set (inline_scan delim ignored (pos + length l) [] ls)"
      by (auto split: if_splits)
    then show ?thesis
    proof cases
      case 1
      then show ?thesis by simp
    next
      case 2
      from Cons.IH [OF this] show ?thesis by simp
    qed
  qed
qed

lemma inline_scan_split:
  assumes "\<not> doc_line delim ignored (concat (l # ls2))"
  shows "\<exists>before. inline_scan delim ignored pos run (ls1 @ l # ls2) =
           before @ inline_scan delim ignored (pos + length (concat ls1) + length l) [] ls2
         \<and> list_all (\<lambda>(start, stop, grp). stop \<le> pos + length (concat ls1)) before"
proof (induction ls1 arbitrary: pos run)
  case Nil
  show ?case
    by (rule exI [of _ "if run = [] then [] else [(pos - length run, pos, run)]"])
       (use assms in simp)
next
  case (Cons x xs)
  show ?case
  proof (cases "doc_line delim ignored (concat ((x # xs) @ l # ls2))")
    case True
    from Cons.IH [of "pos + length x" "run @ x"] obtain before where
      "inline_scan delim ignored (pos + length x) (run @ x) (xs @ l # ls2) =
         before @ inline_scan delim ignored (pos + length x + length (concat xs) + length l) [] ls2"
      "list_all (\<lambda>(start, stop, grp). stop \<le> pos + length x + length (concat xs)) before"
      by blast
    with True show ?thesis
      by (intro exI [of _ before]) (simp add: add.assoc)
  next
    case False
    from Cons.IH [of "pos + length x" "[]"] obtain before where b:
      "inline_scan delim ignored (pos + length x) [] (xs @ l # ls2) =
         before @ inline_scan delim ignored (pos + length x + length (concat xs) + length l) [] ls2"
      "list_all (\<lambda>(start, stop, grp). stop \<le> pos + length x + length (concat xs)) before"
      by blast
    with False show ?thesis
      by (intro exI [of _ "(if run = [] then [] else [(pos - length run, pos, run)]) @ before"])
         (simp add: add.assoc)
  qed
qed

lemma shebang_not_doc_line:
  assumes "body \<noteq> []" and "nl \<notin> set body"
  shows "\<not> doc_line ''#'' python_ignored (''#!'' @ body @ [nl] @ post)"
proof -
  from assms obtain c cs where "body = c # cs" "c \<noteq> nl" by (cases body) auto
  then show ?thesis
    by (simp add: doc_line_def python_ignored_def startswith_def is_blank_def)
qed

lemma shebang_matches:
  assumes "pre = [] \<or> last pre = nl" and "body \<noteq> []" and "nl \<notin> set body"
  shows "\<exists>before after.
           inline_re ''#'' python_ignored (pre @ (''#!'' @ body @ [nl]) @ post) = before @ after
         \<and> list_all (\<lambda>(start, stop, grp). stop \<le> length pre) before
         \<and> list_all (\<lambda>(start, stop, grp). length pre + length (''#!'' @ body @ [nl]) \<le> start)
              after"
proof -
  define l where "l = ''#!'' @ body @ [nl]"
  have "nl \<notin> set (''#!'' @ body)" using assms(3) by simp
  then have "lines_nl ((''#!'' @ body) @ [nl]) = [(''#!'' @ body) @ [nl]]"
    by (rule lines_nl_single)
  then have single: "lines_nl l = [l]" by (simp add: l_def)
  have last_l: "l = [] \<or> last l = nl" by (simp add: l_def)
  have "lines_nl (pre @ l @ post) = lines_nl pre @ lines_nl (l @ post)"
    using assms(1) by (rule lines_nl_append)
  also have "lines_nl (l @ post) = lines_nl l @ lines_nl post"
    using last_l by (rule lines_nl_append)
  finally have lines: "lines_nl (pre @ l @ post) = lines_nl pre @ l # lines_nl post"
    using single by simp
  have "\<not> doc_line ''#'' python_ignored (l @ post)"
    using shebang_not_doc_line [OF assms(2,3), of post] by (simp add: l_def)
  then have "\<not> doc_line ''#'' python_ignored (concat (l # lines_nl post))"
    by (simp add: concat_lines_nl)
  from inline_scan_split [OF this, of 0 "[]" "lines_nl pre"] obtain before where
    b1: "inline_scan ''#'' python_ignored 0 [] (lines_nl pre @ l # lines_nl post) =
       before @ inline_scan ''#'' python_ignored (0 + length (concat (lines_nl pre)) + length l) []
                  (lines_nl post)"
    and b2: "list_all (\<lambda>(start, stop, grp). stop \<le> 0 + length (concat (lines_nl pre))) before"
    by (elim exE conjE)
  let ?after = "inline_scan ''#'' python_ignored (length pre + length l) [] (lines_nl post)"
  have after: "list_all (\<lambda>(start, stop, grp). length pre + length l \<le> start) ?after"
    unfolding list_all_iff
    using inline_scan_starts [of _ _ _ "''#''" python_ignored "length pre + length l" "[]"
        "lines_nl post"]
    by fastforce
  have re: "inline_re ''#'' python_ignored (pre @ l @ post) = before @ ?after"
    using b1 by (simp add: inline_re_def lines concat_lines_nl)
  have before: "list_all (\<lambda>(start, stop, grp). stop \<le> length pre) before"
    using b2 by (simp add: concat_lines_nl)
  from re before after show ?thesis
    unfolding l_def by (intro exI conjI)
qed

lemma split_pieces_keep:
  assumes "list_all (\<lambda>(start, stop, grp). stop \<le> length pre) before"
    and "list_all (\<lambda>(start, stop, grp). length pre + length l \<le> start) after"
    and "pos \<le> length pre" and "pre = [] \<or> last pre = nl"
  shows "in_code (holds_line l) (split_pieces (pre @ l @ post) pos (before @ after) tag)"
  using assms(1,3)
proof (induction before arbitrary: pos)
  case Nil
  have aligned: "drop pos pre = [] \<or> last (drop pos pre) = nl"
    using assms(4) by (cases "drop pos pre = []") (auto simp: last_drop)
  show ?case
  proof (cases after)
    case Nil
    have "drop pos (pre @ l @ post) = drop pos pre @ l @ post"
      using Nil.prems(2) by simp
    with aligned have "holds_line l (drop pos (pre @ l @ post))"
      unfolding holds_line_def by blast
    with Nil show ?thesis by (simp add: in_code_def new_Section_def)
  next
    case (Cons m ms)
    obtain start stop grp where m: "m = (start, stop, grp)" by (cases m)
    with Cons assms(2) have "length pre + length l \<le> start" by simp
    with Nil.prems(2) have
      "take (start - pos) (drop pos (pre @ l @ post)) =
         drop pos pre @ l @ take (start - (length pre + length l)) post"
      by simp
    with aligned have "holds_line l (take (start - pos) (drop pos (pre @ l @ post)))"
      unfolding holds_line_def by blast
    with Cons m show ?thesis by (simp add: in_code_def new_Section_def)
  qed
next
  case (Cons m ms)
  obtain start stop grp where m: "m = (start, stop, grp)" by (cases m)
  with Cons.prems(1) have "stop \<le> length pre"
    "list_all (\<lambda>(start, stop, grp). stop \<le> length pre) ms"
    by simp_all
  from Cons.IH [OF this(2) this(1)] m show ?case by (simp add: in_code_def)
qed

lemma split_section_code_texts:
  "map code_text (split_section_by_regex section regex tag) =
     (case regex (code_text section) of
        [] \<Rightarrow> [code_text section]
      | m # ms \<Rightarrow> map code_text (split_pieces (code_text section) 0 (m # ms) tag))"
  by (auto simp: split_section_by_regex_def split: list.splits)

lemma code_text_strip_inline: "code_text (strip_inline delim s) = code_text s"
  by (simp add: strip_inline_def)

lemma shebang_code_kept:
  assumes "regex (pre @ l @ post) = before @ after" and "code_text section = pre @ l @ post"
    and "pre = [] \<or> last pre = nl"
    and "list_all (\<lambda>(start, stop, grp). stop \<le> length pre) before"
    and "list_all (\<lambda>(start, stop, grp). length pre + length l \<le> start) after"
  shows "in_code (holds_line l) (split_section_by_regex section regex tag)"
proof (cases "before @ after")
  case Nil
  then have "map code_text (split_section_by_regex section regex tag) = [pre @ l @ post]"
    using assms(1,2) by (simp add: split_section_code_texts)
  moreover have "in_code (holds_line l) [section]"
    using assms(2,3) unfolding in_code_def holds_line_def by auto
  moreover have "map code_text [section] = [pre @ l @ post]" using assms(2) by simp
  ultimately show ?thesis by (metis in_code_same_codes)
next
  case (Cons m rest)
  then have "map code_text (split_section_by_regex section regex tag) =
      map code_text (split_pieces (pre @ l @ post) 0 (before @ after) tag)"
    using assms(1,2) by (simp add: split_section_code_texts)
  moreover have "in_code (holds_line l) (split_pieces (pre @ l @ post) 0 (before @ after) tag)"
    by (rule split_pieces_keep [OF assms(4,5) _ assms(3)]) simp
  ultimately show ?thesis by (metis in_code_same_codes)
qed

subsection \<open>What each body does to the code texts\<close>

lemma in_code_map:
  assumes "in_code P secs" and "\<And>s. code_text (f s) = code_text s"
  shows "in_code P (map f secs)"
  using assms unfolding in_code_def by auto

lemma parse_inline_keeps_line:
  assumes "body \<noteq> []" and "nl \<notin> set body"
    and "i < length secs" and "in_code (holds_line (''#!'' @ body @ [nl])) secs"
    and "parse_inline ''#'' python_ignored secs i = Some (secs', r)"
  shows "in_code (holds_line (''#!'' @ body @ [nl])) secs' \<and> r = None"
proof -
  define l where "l = ''#!'' @ body @ [nl]"
  let ?new = "split_section_by_regex (secs ! i) (inline_re ''#'' python_ignored) None"
  from assms(3,5) have secs': "secs' = splice i (map (strip_inline ''#'') ?new) secs"
    and r: "r = None"
    by (simp_all add: parse_inline_def)
  from assms(4) obtain n where n: "n < length secs" "holds_line l (code_text (secs ! n))"
    unfolding in_code_nth l_def by blast
  have "in_code (holds_line l) secs'"
  proof (cases "n = i")
    case False
    from nth_in_splice [OF n(1) False] n(2) show ?thesis
      unfolding secs' by (rule in_codeI)
  next
    case True
    with n(2) obtain pre post where code: "code_text (secs ! i) = pre @ l @ post"
      and pre: "pre = [] \<or> last pre = nl"
      unfolding holds_line_def by blast
    from shebang_matches [OF pre assms(1,2), of post, folded l_def] obtain before after where
      re: "inline_re ''#'' python_ignored (pre @ l @ post) = before @ after"
      and b: "list_all (\<lambda>(start, stop, grp). stop \<le> length pre) before"
      and a: "list_all (\<lambda>(start, stop, grp). length pre + length l \<le> start) after"
      by (elim exE conjE)
    have "in_code (holds_line l) ?new"
      by (rule shebang_code_kept [of "inline_re ''#'' python_ignored" pre l post before after
            "secs ! i", OF re code pre b a])
    then have "in_code (holds_line l) (map (strip_inline ''#'') ?new)"
      by (rule in_code_map) (rule code_text_strip_inline)
    then obtain s where "s \<in> set (map (strip_inline ''#'') ?new)" "holds_line l (code_text s)"
      unfolding in_code_def by blast
    from new_in_splice [OF this(1)] this(2) show ?thesis
      unfolding secs' by (rule in_codeI)
  qed
  with r show ?thesis unfolding l_def by simp
qed

lemma set_sections_levels_keeps:
  assumes "in_code P secs" and "set_sections_levels secs i = Some (secs', r)"
  shows "in_code P secs' \<and> r = None"
proof -
  from assms(2) consider "secs' = secs" "r = None"
    | s where "secs' = secs[i := s]" "i < length secs" "code_text s = code_text (secs ! i)" "r = None"
    by (auto simp: set_sections_levels_def split: if_splits)
  then show ?thesis
  proof cases
    case 1
    with assms(1) show ?thesis by simp
  next
    case 2
    from in_code_update [OF assms(1), of i s] 2 show ?thesis by simp
  qed
qed

lemma strip_docs_indentation_keeps:
  assumes "in_code P secs" and "strip_docs_indentation secs i = Some (secs', r)"
  shows "in_code P secs' \<and> r = None"
proof -
  from assms(2) obtain s where "secs' = secs[i := s]" "i < length secs"
    "code_text s = code_text (secs ! i)" "r = None"
    by (auto simp: strip_docs_indentation_def Let_def split: if_splits)
  with in_code_update [OF assms(1), of i s] show ?thesis by simp
qed

lemma in_code_merge_pair:
  assumes "0 < i" and "i < length secs" and "in_code P secs"
    and "P (code_text (secs ! (i - 1))) \<Longrightarrow> P (code_text m)"
    and "P (code_text (secs ! i)) \<Longrightarrow> P (code_text m)"
  shows "in_code P (take (i - 1) secs @ [m] @ drop (Suc i) secs)"
proof -
  from assms(3) obtain n where n: "n < length secs" "P (code_text (secs ! n))"
    unfolding in_code_nth by blast
  consider "n = i - 1 \<or> n = i" | "n < i - 1" | "i < n" by linarith
  then show ?thesis
  proof cases
    case 1
    with n(2) assms(4,5) have "P (code_text m)" by blast
    then show ?thesis by (intro in_codeI [of m]) simp_all
  next
    case 2
    with n(1) have "secs ! n = take (i - 1) secs ! n" "n < length (take (i - 1) secs)" by simp_all
    then have "secs ! n \<in> set (take (i - 1) secs)" by (metis nth_mem)
    with n(2) show ?thesis by (intro in_codeI [of "secs ! n"]) simp_all
  next
    case 3
    with n(1) have "secs ! n = drop (Suc i) secs ! (n - Suc i)"
      "n - Suc i < length (drop (Suc i) secs)" by simp_all
    then have "secs ! n \<in> set (drop (Suc i) secs)" by (metis nth_mem)
    with n(2) show ?thesis by (intro in_codeI [of "secs ! n"]) simp_all
  qed
qed

lemma in_code_merge_into_previous:
  assumes "0 < i" and "i < length secs" and "in_code P secs"
    and "P (code_text (secs ! (i - 1))) \<Longrightarrow> P (code_text m)"
    and "P (code_text (secs ! i)) \<Longrightarrow> P (code_text m)"
  shows "in_code P (delete_at i (secs[prev i secs := m]))"
proof -
  have "delete_at i (secs[prev i secs := m]) = take (i - 1) secs @ [m] @ drop (Suc i) secs"
    using assms(1,2) replace_and_delete [OF assms(1,2), of m]
    by (simp add: delete_at_def splice_def prev_def)
  with in_code_merge_pair [OF assms] show ?thesis by simp
qed

lemma merge_up_keeps:
  assumes "k \<noteq> []" and "0 < i" and "in_code (within k) secs"
    and "merge_up scope_keywords secs i = Some (secs', r)"
  shows "in_code (within k) secs' \<and> r = None"
proof -
  have len: "i < length secs"
    using assms(4) by (cases "i < length secs") (simp_all add: merge_up_def)
  define merged where
    "merged = delete_at i (secs[prev i secs := (secs ! prev i secs)\<lparr>docs_text := docs_text (secs ! i)\<rparr>])"
  have "merge_up scope_keywords secs i =
      Some (if \<not> has_code (secs ! i) \<and> \<not> has_docs (secs ! prev i secs)
               \<and> has_code (secs ! prev i secs)
               \<and> scope_keywords (strip is_space (last_line (strip is_space
                     (code_text (secs ! prev i secs))))) \<noteq> None
            then merged else secs, None)"
    using len by (simp add: merge_up_def Let_def merged_def)
  with assms(4) have r: "r = None" and cases: "secs' = secs \<or> (\<not> has_code (secs ! i) \<and> secs' = merged)"
    by (simp_all split: if_splits)
  from cases consider "secs' = secs"
    | "\<not> has_code (secs ! i)"
      "secs' = delete_at i (secs[prev i secs := (secs ! prev i secs)\<lparr>docs_text := docs_text (secs ! i)\<rparr>])"
    unfolding merged_def by blast
  then have "in_code (within k) secs'"
  proof cases
    case 1
    with assms(3) show ?thesis by simp
  next
    case 2
    from 2(1) assms(1) have no: "\<not> within k (code_text (secs ! i))"
      using within_nonempty by (auto simp: has_code_def)
    have p: "prev i secs = i - 1" using assms(2) by (simp add: prev_def)
    show ?thesis unfolding 2(2)
      by (rule in_code_merge_into_previous [OF assms(2) len assms(3)]) (use no p in simp_all)
  qed
  with r show ?thesis by simp
qed

lemma merge_down_keeps:
  assumes "k \<noteq> []" and "0 < i" and "in_code (within k) secs"
    and "merge_down secs i = Some (secs', r)"
  shows "in_code (within k) secs' \<and> r = None"
proof -
  have len: "i < length secs"
    using assms(4) by (cases "i < length secs") (simp_all add: merge_down_def)
  define merged where
    "merged = delete_at i (secs[prev i secs := (secs ! prev i secs)
          \<lparr>code_text := code_text (secs ! i),
           scope := (if scope (secs ! i) \<noteq> [] then scope (secs ! i)
                     else scope (secs ! prev i secs))\<rparr>])"
  have "merge_down secs i =
      Some (if \<not> has_code (secs ! prev i secs) \<and> has_docs (secs ! prev i secs)
               \<and> \<not> has_docs (secs ! i) \<and> has_code (secs ! i)
            then merged else secs, None)"
    using len by (simp add: merge_down_def Let_def merged_def)
  with assms(4) have r: "r = None"
    and cases: "secs' = secs \<or> (\<not> has_code (secs ! prev i secs) \<and> secs' = merged)"
    by (simp_all split: if_splits)
  from cases consider "secs' = secs"
    | "\<not> has_code (secs ! prev i secs)"
      "secs' = delete_at i (secs[prev i secs := (secs ! prev i secs)
          \<lparr>code_text := code_text (secs ! i),
           scope := (if scope (secs ! i) \<noteq> [] then scope (secs ! i)
                     else scope (secs ! prev i secs))\<rparr>])"
    unfolding merged_def by blast
  then have "in_code (within k) secs'"
  proof cases
    case 1
    with assms(3) show ?thesis by simp
  next
    case 2
    have p: "prev i secs = i - 1" using assms(2) by (simp add: prev_def)
    from 2(1) assms(1) have no: "\<not> within k (code_text (secs ! (i - 1)))"
      using within_nonempty unfolding p by (auto simp: has_code_def)
    show ?thesis unfolding 2(2)
      by (rule in_code_merge_into_previous [OF assms(2) len assms(3)]) (use no in simp_all)
  qed
  with r show ?thesis by simp
qed

lemma absorb_keeps:
  assumes "k \<noteq> []" and "nl \<notin> set k" and "0 < i" and "in_code (within k) secs"
    and "absorb secs i = Some (secs', r)"
  shows "in_code (within k) secs' \<and> r = None"
proof -
  have len: "i < length secs"
    using assms(5) by (cases "i < length secs") (simp_all add: absorb_def)
  have p: "prev i secs = i - 1" using assms(3) by (simp add: prev_def)
  define merged where
    "merged = delete_at i (secs[prev i secs := (secs ! prev i secs)
          \<lparr>code_text := rstrip is_nl (code_text (secs ! prev i secs)) @ [nl, nl]
                           @ lstrip is_nl (code_text (secs ! i))\<rparr>])"
  have "absorb secs i =
      Some (if \<not> has_docs (secs ! i) \<and> level (secs ! prev i secs) < level (secs ! i)
            then merged else secs, None)"
    using len by (simp add: absorb_def Let_def merged_def)
  with assms(5) have r: "r = None" and cases: "secs' = secs \<or> secs' = merged"
    by (simp_all split: if_splits)
  from cases consider "secs' = secs"
    | "secs' = delete_at i (secs[prev i secs := (secs ! prev i secs)
          \<lparr>code_text := rstrip is_nl (code_text (secs ! prev i secs)) @ [nl, nl]
                           @ lstrip is_nl (code_text (secs ! i))\<rparr>])"
    unfolding merged_def by blast
  then have "in_code (within k) secs'"
  proof cases
    case 1
    with assms(4) show ?thesis by simp
  next
    case 2
    show ?thesis unfolding 2
    proof (rule in_code_merge_into_previous [OF assms(3) len assms(4)])
      assume "within k (code_text (secs ! (i - 1)))"
      then have "within k (rstrip is_nl (code_text (secs ! prev i secs)))"
        unfolding p by (rule within_rstrip [OF assms(1,2)])
      then have "within k (rstrip is_nl (code_text (secs ! prev i secs))
                           @ ([nl, nl] @ lstrip is_nl (code_text (secs ! i))))"
        by (rule within_append)
      then show "within k (code_text ((secs ! prev i secs)
          \<lparr>code_text := rstrip is_nl (code_text (secs ! prev i secs)) @ [nl, nl]
                           @ lstrip is_nl (code_text (secs ! i))\<rparr>))"
        by simp
    next
      assume "within k (code_text (secs ! i))"
      then have "within k (lstrip is_nl (code_text (secs ! i)))"
        by (rule within_lstrip [OF assms(1,2)])
      then have "within k ([nl, nl] @ lstrip is_nl (code_text (secs ! i)))"
        by (rule within_prepend)
      then have "within k (rstrip is_nl (code_text (secs ! prev i secs)) @ [nl, nl]
                           @ lstrip is_nl (code_text (secs ! i)))"
        by (rule within_prepend)
      then show "within k (code_text ((secs ! prev i secs)
          \<lparr>code_text := rstrip is_nl (code_text (secs ! prev i secs)) @ [nl, nl]
                           @ lstrip is_nl (code_text (secs ! i))\<rparr>))"
        by simp
    qed
  qed
  with r show ?thesis by simp
qed

lemma python_absorb_keeps:
  assumes "0 < i" and "in_code (within k) secs"
    and "python_absorb secs i = Some (secs', r)"
  shows "in_code (within k) secs' \<and> (\<forall>j. r = Some j \<longrightarrow> 1 \<le> j)"
proof -
  have len: "i < length secs"
    using assms(3) by (cases "i < length secs") (simp_all add: python_absorb_def)
  have p: "prev i secs = i - 1" using assms(1) by (simp add: prev_def)
  let ?m = "(secs ! i)\<lparr>docs_text := docs_text (secs ! (i - 1)) @ docs_text (secs ! i),
                        code_text := code_text (secs ! (i - 1)) @ code_text (secs ! i)\<rparr>"
  have "python_absorb secs i =
      Some (if CHR ''@'' \<in> set (scope (secs ! (i - 1)))
            then (take (i - 1) secs @ [?m] @ drop (Suc i) secs, Some i) else (secs, None))"
    using len assms(1) by (simp add: python_absorb_def replace_pair_def p Let_def)
  with assms(3) consider "secs' = secs" "r = None"
    | "secs' = take (i - 1) secs @ [?m] @ drop (Suc i) secs" "r = Some i"
    by (auto split: if_splits)
  then show ?thesis
  proof cases
    case 1
    with assms(2) show ?thesis by simp
  next
    case 2
    have "in_code (within k) (take (i - 1) secs @ [?m] @ drop (Suc i) secs)"
    proof (rule in_code_merge_pair [OF assms(1) len assms(2)])
      assume "within k (code_text (secs ! (i - 1)))"
      from within_append [OF this] show "within k (code_text ?m)" by simp
    next
      assume "within k (code_text (secs ! i))"
      from within_prepend [OF this] show "within k (code_text ?m)" by simp
    qed
    with 2 assms(1) show ?thesis by simp
  qed
qed

lemma filter_keeps:
  assumes "k \<noteq> []" and "in_code (within k) secs"
  shows "in_code (within k) (filter (\<lambda>section. has_code section \<or> has_docs section) secs)"
proof -
  from assms(2) obtain s where s: "s \<in> set secs" "within k (code_text s)"
    unfolding in_code_def by blast
  with assms(1) have "has_code s" using within_nonempty by (auto simp: has_code_def)
  with s show ?thesis unfolding in_code_def by auto
qed

lemma length_split_code_by_pos:
  "i < length secs \<Longrightarrow> length (split_code_by_pos i p secs) = Suc (length secs)"
  by (simp add: split_code_by_pos_def)

lemma in_code_relabel:
  assumes "in_code P secs" and "code_text s = code_text (secs ! j)"
  shows "in_code P (secs[j := s])"
  using in_code_update [OF assms(1), of j s] assms(2) by simp

lemma split_by_scopes_keeps:
  assumes "k \<noteq> []" and "nl \<notin> set k" and "in_code (within k) secs"
    and "split_by_scopes scope_keywords secs i = Some (secs', r)"
  shows "in_code (within k) secs' \<and> r = None"
proof -
  have len: "i < length secs"
    using assms(4) by (cases "i < length secs") (simp_all add: split_by_scopes_def)
  define code where "code = code_text (secs ! i)"
  define n where "n = length (takeWhile is_space (strip is_nl code))"
  define s1 where "s1 =
    (case search (indent_re n) code (n + 1) of
       Some (start, stop, grp) \<Rightarrow>
         (let s = split_code_by_pos i start secs in
          s[i := (s ! i)\<lparr>level := n\<rparr>,
            Suc i := (s ! Suc i)\<lparr>level := length (strip is_nl grp)\<rparr>])
     | None \<Rightarrow> secs)"
  define code1 where "code1 = code_text (s1 ! i)"
  define pr where "pr =
    (case search scope_keywords code1 0 of
       Some (start, stop, grp) \<Rightarrow>
         if start = 0
         then (s1[i := (s1 ! i)\<lparr>scope := strip is_space grp\<rparr>], search scope_keywords code1 1)
         else (s1, Some (start, stop, grp))
     | None \<Rightarrow> (s1, None))"
  define final where "final =
    (case snd pr of
       Some (start, stop, grp) \<Rightarrow>
         (let s = split_code_by_pos i start (fst pr) in
          s[Suc i := (s ! Suc i)\<lparr>code_text := strip is_nl (code_text (s ! Suc i)),
                                  scope := strip is_space grp\<rparr>])
     | None \<Rightarrow> fst pr)"
  have eq: "split_by_scopes scope_keywords secs i = Some (final, None)"
    using len unfolding split_by_scopes_def final_def pr_def code1_def s1_def n_def code_def
    by (simp add: Let_def case_prod_beta split: option.split)
  have a: "in_code (within k) s1 \<and> i < length s1"
  proof (cases "search (indent_re n) code (n + 1)")
    case None
    with assms(3) len show ?thesis by (simp add: s1_def)
  next
    case (Some m)
    obtain start stop grp where m: "m = (start, stop, grp)" by (cases m)
    let ?s = "split_code_by_pos i start secs"
    from Some m have "at_line_start code start" by (simp add: search_line_start)
    then have "in_code (within k) ?s"
      unfolding code_def by (rule in_code_split [OF len _ assms(2,3)])
    then have "in_code (within k) (?s[i := (?s ! i)\<lparr>level := n\<rparr>])"
      by (rule in_code_relabel) simp
    then have "in_code (within k) (?s[i := (?s ! i)\<lparr>level := n\<rparr>,
        Suc i := (?s ! Suc i)\<lparr>level := length (strip is_nl grp)\<rparr>])"
      by (rule in_code_relabel) simp
    moreover have "s1 = ?s[i := (?s ! i)\<lparr>level := n\<rparr>,
        Suc i := (?s ! Suc i)\<lparr>level := length (strip is_nl grp)\<rparr>]"
      using Some m by (simp add: s1_def Let_def)
    ultimately show ?thesis using len by (simp add: length_split_code_by_pos)
  qed
  have b: "in_code (within k) (fst pr) \<and> i < length (fst pr)
           \<and> code_text (fst pr ! i) = code1
           \<and> (\<forall>start stop grp. snd pr = Some (start, stop, grp) \<longrightarrow> at_line_start code1 start)"
  proof (cases "search scope_keywords code1 0")
    case None
    with a show ?thesis by (simp add: pr_def code1_def)
  next
    case (Some m)
    obtain start stop grp where m: "m = (start, stop, grp)" by (cases m)
    show ?thesis
    proof (cases "start = 0")
      case False
      with Some m have "pr = (s1, Some (start, stop, grp))" by (simp add: pr_def)
      moreover from Some m have "at_line_start code1 start" by (simp add: search_line_start)
      ultimately show ?thesis using a by (simp add: code1_def)
    next
      case True
      with Some m have pr: "pr = (s1[i := (s1 ! i)\<lparr>scope := strip is_space grp\<rparr>],
          search scope_keywords code1 1)" by (simp add: pr_def)
      from a have "in_code (within k) (s1[i := (s1 ! i)\<lparr>scope := strip is_space grp\<rparr>])"
        by (intro in_code_relabel) simp_all
      moreover have "\<forall>start stop grp. search scope_keywords code1 1 = Some (start, stop, grp)
          \<longrightarrow> at_line_start code1 start"
        by (simp add: search_line_start)
      ultimately show ?thesis using a unfolding pr by (simp add: code1_def)
    qed
  qed
  have c: "in_code (within k) final"
  proof (cases "snd pr")
    case None
    with b show ?thesis by (simp add: final_def)
  next
    case (Some m)
    obtain start stop grp where m: "m = (start, stop, grp)" by (cases m)
    let ?s = "split_code_by_pos i start (fst pr)"
    from b Some m have "at_line_start (code_text (fst pr ! i)) start" by simp
    with b have "in_code (within k) ?s"
      by (intro in_code_split assms(2)) simp_all
    then have "in_code (within k)
        (?s[Suc i := (?s ! Suc i)\<lparr>code_text := strip is_nl (code_text (?s ! Suc i)),
                                    scope := strip is_space grp\<rparr>])"
    proof (rule in_code_update)
      assume "within k (code_text (?s ! Suc i))"
      then have "within k (strip is_nl (code_text (?s ! Suc i)))"
        by (rule within_strip [OF assms(1,2)])
      then show "within k (code_text ((?s ! Suc i)
          \<lparr>code_text := strip is_nl (code_text (?s ! Suc i)), scope := strip is_space grp\<rparr>))"
        by simp
    qed
    moreover have "final = ?s[Suc i := (?s ! Suc i)
        \<lparr>code_text := strip is_nl (code_text (?s ! Suc i)), scope := strip is_space grp\<rparr>]"
      using Some m by (simp add: final_def Let_def)
    ultimately show ?thesis by simp
  qed
  from assms(4) eq have "secs' = final" "r = None" by simp_all
  with c show ?thesis by simp
qed

subsection \<open>What each pass does to the code texts\<close>

lemma parse_inline_pass:
  assumes "body \<noteq> []" and "nl \<notin> set body"
    and "iterate_sections 0 (parse_inline ''#'' python_ignored) secs = Some out"
    and "in_code (holds_line (''#!'' @ body @ [nl])) secs"
  shows "in_code (holds_line (''#!'' @ body @ [nl])) out"
  using assms(3,4)
proof (rule iterate_sections_invariant)
  fix secs j secs' r
  assume "j < length secs" "in_code (holds_line (''#!'' @ body @ [nl])) secs"
    "parse_inline ''#'' python_ignored secs j = Some (secs', r)"
  from parse_inline_keeps_line [OF assms(1,2) this]
  show "in_code (holds_line (''#!'' @ body @ [nl])) secs' \<and> (\<forall>k. r = Some k \<longrightarrow> 0 \<le> k)"
    by simp
qed

lemma set_sections_levels_pass:
  assumes "iterate_sections 0 set_sections_levels secs = Some out" and "in_code P secs"
  shows "in_code P out"
  using assms
proof (rule iterate_sections_invariant)
  fix secs j secs' r
  assume "in_code P secs" "set_sections_levels secs j = Some (secs', r)"
  from set_sections_levels_keeps [OF this]
  show "in_code P secs' \<and> (\<forall>k. r = Some k \<longrightarrow> 0 \<le> k)" by simp
qed

lemma strip_docs_indentation_pass:
  assumes "iterate_sections 0 strip_docs_indentation secs = Some out" and "in_code P secs"
  shows "in_code P out"
  using assms
proof (rule iterate_sections_invariant)
  fix secs j secs' r
  assume "in_code P secs" "strip_docs_indentation secs j = Some (secs', r)"
  from strip_docs_indentation_keeps [OF this]
  show "in_code P secs' \<and> (\<forall>k. r = Some k \<longrightarrow> 0 \<le> k)" by simp
qed

lemma split_by_scopes_pass:
  assumes "k \<noteq> []" and "nl \<notin> set k"
    and "iterate_sections 0 (split_by_scopes scope_keywords) secs = Some out"
    and "in_code (within k) secs"
  shows "in_code (within k) out"
  using assms(3,4)
proof (rule iterate_sections_invariant)
  fix secs j secs' r
  assume "in_code (within k) secs" "split_by_scopes scope_keywords secs j = Some (secs', r)"
  from split_by_scopes_keeps [OF assms(1,2) this]
  show "in_code (within k) secs' \<and> (\<forall>k. r = Some k \<longrightarrow> 0 \<le> k)" by simp
qed

lemma merge_up_pass:
  assumes "k \<noteq> []"
    and "iterate_sections 1 (merge_up scope_keywords) secs = Some out"
    and "in_code (within k) secs"
  shows "in_code (within k) out"
  using assms(2,3)
proof (rule iterate_sections_invariant)
  fix secs j secs' r
  assume "1 \<le> j" "in_code (within k) secs" "merge_up scope_keywords secs j = Some (secs', r)"
  then have "0 < j" by simp
  from merge_up_keeps [OF assms(1) this \<open>in_code (within k) secs\<close>
      \<open>merge_up scope_keywords secs j = Some (secs', r)\<close>]
  show "in_code (within k) secs' \<and> (\<forall>k. r = Some k \<longrightarrow> 1 \<le> k)" by simp
qed

lemma merge_down_pass:
  assumes "k \<noteq> []"
    and "iterate_sections 1 merge_down secs = Some out"
    and "in_code (within k) secs"
  shows "in_code (within k) out"
  using assms(2,3)
proof (rule iterate_sections_invariant)
  fix secs j secs' r
  assume "1 \<le> j" "in_code (within k) secs" "merge_down secs j = Some (secs', r)"
  then have "0 < j" by simp
  from merge_down_keeps [OF assms(1) this \<open>in_code (within k) secs\<close>
      \<open>merge_down secs j = Some (secs', r)\<close>]
  show "in_code (within k) secs' \<and> (\<forall>k. r = Some k \<longrightarrow> 1 \<le> k)" by simp
qed

lemma python_absorb_pass:
  assumes "iterate_sections 1 python_absorb secs = Some out"
    and "in_code (within k) secs"
  shows "in_code (within k) out"
  using assms
proof (rule iterate_sections_invariant)
  fix secs j secs' r
  assume "1 \<le> j" "in_code (within k) secs" "python_absorb secs j = Some (secs', r)"
  then have "0 < j" by simp
  from python_absorb_keeps [OF this \<open>in_code (within k) secs\<close>
      \<open>python_absorb secs j = Some (secs', r)\<close>]
  show "in_code (within k) secs' \<and> (\<forall>k. r = Some k \<longrightarrow> 1 \<le> k)" by simp
qed

lemma absorb_pass:
  assumes "k \<noteq> []" and "nl \<notin> set k"
    and "iterate_sections 1 absorb secs = Some out"
    and "in_code (within k) secs"
  shows "in_code (within k) out"
  using assms(3,4)
proof (rule iterate_sections_invariant)
  fix secs j secs' r
  assume "1 \<le> j" "in_code (within k) secs" "absorb secs j = Some (secs', r)"
  then have "0 < j" by simp
  from absorb_keeps [OF assms(1,2) this \<open>in_code (within k) secs\<close>
      \<open>absorb secs j = Some (secs', r)\<close>]
  show "in_code (within k) secs' \<and> (\<forall>k. r = Some k \<longrightarrow> 1 \<le> k)" by simp
qed

subsection \<open>A text without block comment delimiter\<close>

lemma find_sub_None: "find_sub pat s = None \<Longrightarrow> \<not> within pat s"
proof (induction s)
  case Nil
  then have "pat \<noteq> []" by (simp split: if_splits)
  then show ?case unfolding within_def by simp
next
  case (Cons c cs)
  from Cons.prems have ns: "\<not> startswith (c # cs) pat" and rest: "find_sub pat cs = None"
    by (simp_all split: if_splits)
  show ?case
  proof
    assume "within pat (c # cs)"
    then obtain u v where uv: "c # cs = u @ pat @ v" unfolding within_def by blast
    show False
    proof (cases u)
      case Nil
      with uv have "take (length pat) (c # cs) = pat" by simp
      with ns show False by (simp add: startswith_def)
    next
      case (Cons d u')
      with uv have "cs = u' @ pat @ v" by simp
      then have "within pat cs" unfolding within_def by blast
      with Cons.IH [OF rest] show False by simp
    qed
  qed
qed

lemma multiline_re_within:
  assumes "multiline_re multistart multiend t = Some x"
  shows "within multistart t"
proof -
  define ws where "ws = length (takeWhile is_space t)"
  from assms have "startswith (drop ws t) multistart"
    by (simp add: multiline_re_def Let_def ws_def split: if_splits)
  then have "take (length multistart) (drop ws t) = multistart" by (simp add: startswith_def)
  then have "drop ws t = multistart @ drop (length multistart) (drop ws t)"
    by (metis append_take_drop_id)
  then have "t = take ws t @ multistart @ drop (length multistart) (drop ws t)"
    by (metis append_take_drop_id)
  then show ?thesis unfolding within_def by blast
qed

lemma scan_all_no_match:
  assumes "\<And>t x. m t = Some x \<Longrightarrow> within k t"
  shows "\<not> within k cs \<Longrightarrow> scan_all m bol skip pos cs = []"
proof (induction cs arbitrary: bol skip pos)
  case Nil
  show ?case by simp
next
  case (Cons c cs)
  have "\<not> within k cs"
  proof
    assume "within k cs"
    then have "within k ([c] @ cs)" by (rule within_prepend)
    with Cons.prems show False by simp
  qed
  then have rest: "\<And>bol skip pos. scan_all m bol skip pos cs = []" by (rule Cons.IH)
  from assms Cons.prems have "m (c # cs) = None" by (cases "m (c # cs)") auto
  with rest show ?case by simp
qed

lemma no_block_comment:
  assumes \<open>find_sub ''"""'' code = None\<close>
  shows \<open>iterate_sections 0 (parse_multiline ''"""'' ''"""'') [new_Section [] code] =
           Some [new_Section [] code]\<close>
proof -
  have none: \<open>\<not> within ''"""'' code\<close> using assms by (rule find_sub_None)
  have \<open>scan_all (multiline_re ''"""'' ''"""'') True 0 0 code = []\<close>
  proof (rule scan_all_no_match)
    fix t x
    assume \<open>multiline_re ''"""'' ''"""'' t = Some x\<close>
    then show \<open>within ''"""'' t\<close> by (rule multiline_re_within)
  next
    show \<open>\<not> within ''"""'' code\<close> by (rule none)
  qed
  then have \<open>finditer (multiline_re ''"""'' ''"""'') code = []\<close>
    by (simp add: finditer_def)
  then have body: \<open>parse_multiline ''"""'' ''"""'' [new_Section [] code] 0 =
      Some ([new_Section [] code], None)\<close>
    by (simp add: parse_multiline_def split_section_by_regex_def splice_def new_Section_def
        strip_multistart_def startswith_def)
  show ?thesis
    unfolding iterate_sections_def
    by (subst iterate_from.simps, simp add: body, subst iterate_from.simps, simp)
qed

subsection \<open>The passes of \<open>Python\<close> in their order\<close>

lemma python_strategy_passes:
  \<open>Python_strategy =
     Some [(''parse_multiline'', iterate_sections 0 (parse_multiline ''"""'' ''"""'')),
           (''parse_inline'', iterate_sections 0 (parse_inline ''#'' python_ignored)),
           (''set_sections_levels'', iterate_sections 0 set_sections_levels),
           (''strip_docs_indentation'', iterate_sections 0 strip_docs_indentation),
           (''set_sections_levels'', iterate_sections 0 set_sections_levels),
           (''split_by_scopes'', iterate_sections 0 (split_by_scopes python_scope_keywords)),
           (''merge_up'', iterate_sections 1 (merge_up python_scope_keywords)),
           (''set_sections_levels'', iterate_sections 0 set_sections_levels),
           (''merge_down'', iterate_sections 1 merge_down),
           (''set_sections_levels'', iterate_sections 0 set_sections_levels),
           (''python_absorb'', iterate_sections 1 python_absorb),
           (''absorb'', iterate_sections 1 absorb)]\<close>
  by (simp add: Python_strategy_def IndentBasedLanguage_strategy_def
      MultilineCommentLanguage_strategy_def InlineCommentLanguage_strategy_def
      Language_strategy_def)

lemma python_parse_chain:
  assumes "Python_parse code = Some sections"
  obtains blocks inl s1 s2 s3 s4 s5 s6 s7 s8 s9 s10 where
    \<open>iterate_sections 0 (parse_multiline ''"""'' ''"""'') [new_Section [] code] = Some blocks\<close>
    and "iterate_sections 0 (parse_inline ''#'' python_ignored) blocks = Some inl"
    and "iterate_sections 0 set_sections_levels inl = Some s1"
    and "iterate_sections 0 strip_docs_indentation s1 = Some s2"
    and "iterate_sections 0 set_sections_levels s2 = Some s3"
    and "iterate_sections 0 (split_by_scopes python_scope_keywords) s3 = Some s4"
    and "iterate_sections 1 (merge_up python_scope_keywords) s4 = Some s5"
    and "iterate_sections 0 set_sections_levels s5 = Some s6"
    and "iterate_sections 1 merge_down s6 = Some s7"
    and "iterate_sections 0 set_sections_levels s7 = Some s8"
    and "iterate_sections 1 python_absorb s8 = Some s9"
    and "iterate_sections 1 absorb s9 = Some s10"
    and "sections = filter (\<lambda>section. has_code section \<or> has_docs section) s10"
proof -
  from assms obtain s10 where
    chain: \<open>apply_passes
       [iterate_sections 0 (parse_multiline ''"""'' ''"""''),
        iterate_sections 0 (parse_inline ''#'' python_ignored),
        iterate_sections 0 set_sections_levels,
        iterate_sections 0 strip_docs_indentation,
        iterate_sections 0 set_sections_levels,
        iterate_sections 0 (split_by_scopes python_scope_keywords),
        iterate_sections 1 (merge_up python_scope_keywords),
        iterate_sections 0 set_sections_levels,
        iterate_sections 1 merge_down,
        iterate_sections 0 set_sections_levels,
        iterate_sections 1 python_absorb,
        iterate_sections 1 absorb] [new_Section [] code] = Some s10\<close>
    and out: "sections = filter (\<lambda>section. has_code section \<or> has_docs section) s10"
    unfolding Python_parse_def python_strategy_passes parse_def Language_parse_def
    by auto
  from chain obtain blocks inl s1 s2 s3 s4 s5 s6 s7 s8 s9 where
    \<open>iterate_sections 0 (parse_multiline ''"""'' ''"""'') [new_Section [] code] = Some blocks\<close>
    "iterate_sections 0 (parse_inline ''#'' python_ignored) blocks = Some inl"
    "iterate_sections 0 set_sections_levels inl = Some s1"
    "iterate_sections 0 strip_docs_indentation s1 = Some s2"
    "iterate_sections 0 set_sections_levels s2 = Some s3"
    "iterate_sections 0 (split_by_scopes python_scope_keywords) s3 = Some s4"
    "iterate_sections 1 (merge_up python_scope_keywords) s4 = Some s5"
    "iterate_sections 0 set_sections_levels s5 = Some s6"
    "iterate_sections 1 merge_down s6 = Some s7"
    "iterate_sections 0 set_sections_levels s7 = Some s8"
    "iterate_sections 1 python_absorb s8 = Some s9"
    "iterate_sections 1 absorb s9 = Some s10"
    by (auto simp: bind_eq_Some_conv)
  with that out show thesis by blast
qed

subsection \<open>The shebang line through \<open>parse\<close>\<close>

lemma shebang_through_parse:
  assumes "body \<noteq> []" and "nl \<notin> set body"
    and "Python_parse code = Some sections"
    and \<open>iterate_sections 0 (parse_multiline ''"""'' ''"""'') [new_Section [] code] = Some blocks\<close>
    and "in_code (holds_line (''#!'' @ body @ [nl])) blocks"
  shows "(\<exists>inl. iterate_sections 0 (parse_inline ''#'' python_ignored) blocks = Some inl \<and>
            in_code (holds_line (''#!'' @ body @ [nl])) inl) \<and>
         in_code (within (''#!'' @ body)) sections"
proof -
  define k where "k = ''#!'' @ body"
  have k: "k \<noteq> []" "nl \<notin> set k" using assms(2) by (simp_all add: k_def)
  from python_parse_chain [OF assms(3)]
  obtain blocks' inl s1 s2 s3 s4 s5 s6 s7 s8 s9 s10 where
    p0: \<open>iterate_sections 0 (parse_multiline ''"""'' ''"""'') [new_Section [] code] = Some blocks'\<close>
    and p1: "iterate_sections 0 (parse_inline ''#'' python_ignored) blocks' = Some inl"
    and p2: "iterate_sections 0 set_sections_levels inl = Some s1"
    and p3: "iterate_sections 0 strip_docs_indentation s1 = Some s2"
    and p4: "iterate_sections 0 set_sections_levels s2 = Some s3"
    and p5: "iterate_sections 0 (split_by_scopes python_scope_keywords) s3 = Some s4"
    and p6: "iterate_sections 1 (merge_up python_scope_keywords) s4 = Some s5"
    and p7: "iterate_sections 0 set_sections_levels s5 = Some s6"
    and p8: "iterate_sections 1 merge_down s6 = Some s7"
    and p9: "iterate_sections 0 set_sections_levels s7 = Some s8"
    and p10: "iterate_sections 1 python_absorb s8 = Some s9"
    and p11: "iterate_sections 1 absorb s9 = Some s10"
    and out: "sections = filter (\<lambda>section. has_code section \<or> has_docs section) s10"
    by blast
  from p0 assms(4) have same: "blocks' = blocks" by simp
  have i1: "in_code (holds_line (''#!'' @ body @ [nl])) inl"
    using p1 assms(5) unfolding same by (rule parse_inline_pass [OF assms(1,2)])
  have "in_code (holds_line (k @ [nl])) inl" using i1 by (simp add: k_def)
  then have "in_code (within k) inl"
    unfolding in_code_def using holds_line_within by blast
  with p2 have "in_code (within k) s1" by (rule set_sections_levels_pass)
  with p3 have "in_code (within k) s2" by (rule strip_docs_indentation_pass)
  with p4 have "in_code (within k) s3" by (rule set_sections_levels_pass)
  with p5 have "in_code (within k) s4" by (rule split_by_scopes_pass [OF k])
  with p6 have "in_code (within k) s5" by (rule merge_up_pass [OF k(1)])
  with p7 have "in_code (within k) s6" by (rule set_sections_levels_pass)
  with p8 have "in_code (within k) s7" by (rule merge_down_pass [OF k(1)])
  with p9 have "in_code (within k) s8" by (rule set_sections_levels_pass)
  with p10 have "in_code (within k) s9" by (rule python_absorb_pass)
  with p11 have "in_code (within k) s10" by (rule absorb_pass [OF k])
  then have "in_code (within k) sections" unfolding out by (rule filter_keeps [OF k(1)])
  with p1 i1 show ?thesis unfolding same k_def by blast
qed

text \<open>
  The line feed that ends the line is not always kept: \<open>split_by_scopes\<close> trims the
  line feeds around the code that it gives to a new scope, here the last one of the input.
\<close>

lemma shebang_line_feed_trimmed_example:
  "Python_parse ''x = 1\<newline>def f():\<newline>    pass\<newline>#!/usr/bin/env x\<newline>'' =
     Some [\<lparr>docs_text = [], code_text = ''x = 1\<newline>'', level = 0, scope = [],
             meta = Some ''stripped''\<rparr>,
           \<lparr>docs_text = [], code_text = ''def f():\<newline>    pass\<newline>#!/usr/bin/env x'',
             level = 0, scope = ''def'', meta = None\<rparr>]"
  by (simp add: parse_eval)

text \<open>
  C6, as the code has it. For \<open>Python\<close>, take a shebang line, \<open>#!\<close> followed by at least
  one character up to its line feed, that the block comment pass, the first pass of
  \<open>parse\<close>, leaves at a line start in the code text of one of its sections; a shebang
  line at a line start of an input that has no \<open>"""\<close> at all is such a line. Then the
  inline comment pass, whatever comment lines surround the line, returns a sequence in
  which the whole line still stands at a line start in the code text of a section, and
  every sequence that \<open>parse\<close> returns for this input has a section whose code text
  contains the line up to its line feed.
\<close>

theorem shebang_stays_code:
  assumes "body \<noteq> []" and "nl \<notin> set body"
    and "Python_parse code = Some sections"
    and \<open>iterate_sections 0 (parse_multiline ''"""'' ''"""'') [new_Section [] code] = Some blocks\<close>
    and \<open>(\<exists>s \<in> set blocks. \<exists>u v. code_text s = u @ ''#!'' @ body @ [nl] @ v \<and> (u = [] \<or> last u = nl))
         \<or> (find_sub ''"""'' code = None \<and>
             (\<exists>u v. code = u @ ''#!'' @ body @ [nl] @ v \<and> (u = [] \<or> last u = nl)))\<close>
  shows "(\<exists>inl. iterate_sections 0 (parse_inline ''#'' python_ignored) blocks = Some inl \<and>
            (\<exists>s \<in> set inl. \<exists>u v. code_text s = u @ ''#!'' @ body @ [nl] @ v \<and>
               (u = [] \<or> last u = nl))) \<and>
         (\<exists>s \<in> set sections. \<exists>u v. code_text s = u @ ''#!'' @ body @ v)"
proof -
  have "in_code (holds_line (''#!'' @ body @ [nl])) blocks"
    using assms(5)
  proof
    assume "\<exists>s \<in> set blocks. \<exists>u v. code_text s = u @ ''#!'' @ body @ [nl] @ v \<and>
        (u = [] \<or> last u = nl)"
    then show ?thesis unfolding in_code_def holds_line_def by simp
  next
    assume a: \<open>find_sub ''"""'' code = None \<and>
        (\<exists>u v. code = u @ ''#!'' @ body @ [nl] @ v \<and> (u = [] \<or> last u = nl))\<close>
    then have "blocks = [new_Section [] code]"
      using no_block_comment [of code] assms(4) by simp
    with a show ?thesis unfolding in_code_def holds_line_def by (simp add: new_Section_def)
  qed
  from shebang_through_parse [OF assms(1-4) this]
  show ?thesis unfolding in_code_def holds_line_def within_def by simp
qed

lemma shebang_after_docstring_example:
  \<open>Python_parse ''"""doc"""\<newline>#!/usr/bin/env x\<newline># c\<newline>x = 1\<newline>'' =
     Some [\<lparr>docs_text = ''doc'', code_text = ''\<newline>#!/usr/bin/env x\<newline>'', level = 0,
             scope = [], meta = Some ''stripped''\<rparr>,
           \<lparr>docs_text = ''c\<newline>'', code_text = ''x = 1\<newline>'', level = 0,
             scope = [], meta = Some ''stripped''\<rparr>]\<close>
  by (simp add: parse_eval)

lemma shebang_after_docstring_blocks:
  \<open>iterate_sections 0 (parse_multiline ''"""'' ''"""'')
     [new_Section [] ''"""doc"""\<newline>#!/usr/bin/env x\<newline># c\<newline>x = 1\<newline>''] =
     Some [new_Section [] [],
           (new_Section ''doc'' [])\<lparr>meta := Some ''stripped''\<rparr>,
           new_Section [] ''\<newline>#!/usr/bin/env x\<newline># c\<newline>x = 1\<newline>'']\<close>
  by (simp add: parse_eval)

lemma shebang_between_comments_example:
  "Python_parse ''# a\<newline>#!/usr/bin/env x\<newline># b\<newline>'' =
     Some [\<lparr>docs_text = ''a\<newline>'', code_text = ''#!/usr/bin/env x\<newline>'', level = 0,
             scope = [], meta = Some ''stripped''\<rparr>,
           \<lparr>docs_text = ''b\<newline>'', code_text = [], level = 0,
             scope = [], meta = Some ''stripped''\<rparr>]"
  by (simp add: parse_eval)

lemma shebang_between_comments_blocks:
  \<open>iterate_sections 0 (parse_multiline ''"""'' ''"""'')
     [new_Section [] ''# a\<newline>#!/usr/bin/env x\<newline># b\<newline>''] =
     Some [new_Section [] ''# a\<newline>#!/usr/bin/env x\<newline># b\<newline>'']\<close>
  by (simp add: parse_eval)

theorem shebang_stays_code_witness:
  \<open>((\<exists>inl. iterate_sections 0 (parse_inline ''#'' python_ignored)
             [new_Section [] [],
              (new_Section ''doc'' [])\<lparr>meta := Some ''stripped''\<rparr>,
              new_Section [] ''\<newline>#!/usr/bin/env x\<newline># c\<newline>x = 1\<newline>''] = Some inl \<and>
       (\<exists>s \<in> set inl. \<exists>u v. code_text s = u @ ''#!'' @ ''/usr/bin/env x'' @ [nl] @ v \<and>
          (u = [] \<or> last u = nl))) \<and>
    (\<exists>s \<in> set [\<lparr>docs_text = ''doc'', code_text = ''\<newline>#!/usr/bin/env x\<newline>'', level = 0,
                    scope = [], meta = Some ''stripped''\<rparr>,
                  \<lparr>docs_text = ''c\<newline>'', code_text = ''x = 1\<newline>'', level = 0,
                    scope = [], meta = Some ''stripped''\<rparr>].
       \<exists>u v. code_text s = u @ ''#!'' @ ''/usr/bin/env x'' @ v)) \<and>
   ((\<exists>inl. iterate_sections 0 (parse_inline ''#'' python_ignored)
             [new_Section [] ''# a\<newline>#!/usr/bin/env x\<newline># b\<newline>''] = Some inl \<and>
       (\<exists>s \<in> set inl. \<exists>u v. code_text s = u @ ''#!'' @ ''/usr/bin/env x'' @ [nl] @ v \<and>
          (u = [] \<or> last u = nl))) \<and>
    (\<exists>s \<in> set [\<lparr>docs_text = ''a\<newline>'', code_text = ''#!/usr/bin/env x\<newline>'', level = 0,
                    scope = [], meta = Some ''stripped''\<rparr>,
                  \<lparr>docs_text = ''b\<newline>'', code_text = [], level = 0,
                    scope = [], meta = Some ''stripped''\<rparr>].
       \<exists>u v. code_text s = u @ ''#!'' @ ''/usr/bin/env x'' @ v))\<close>
proof -
  have h1: "''/usr/bin/env x'' \<noteq> []" by simp
  have h2: "nl \<notin> set ''/usr/bin/env x''" by simp
  have "''\<newline>#!/usr/bin/env x\<newline># c\<newline>x = 1\<newline>'' =
      [nl] @ ''#!'' @ ''/usr/bin/env x'' @ [nl] @ ''# c\<newline>x = 1\<newline>'' \<and> ([nl] = [] \<or> last [nl] = nl)"
    by simp
  then have "\<exists>u v. code_text (new_Section [] ''\<newline>#!/usr/bin/env x\<newline># c\<newline>x = 1\<newline>'') =
      u @ ''#!'' @ ''/usr/bin/env x'' @ [nl] @ v \<and> (u = [] \<or> last u = nl)"
    unfolding new_Section_def Section.simps by (intro exI)
  then have a: \<open>(\<exists>s \<in> set [new_Section [] [],
              (new_Section ''doc'' [])\<lparr>meta := Some ''stripped''\<rparr>,
              new_Section [] ''\<newline>#!/usr/bin/env x\<newline># c\<newline>x = 1\<newline>''].
        \<exists>u v. code_text s = u @ ''#!'' @ ''/usr/bin/env x'' @ [nl] @ v \<and> (u = [] \<or> last u = nl))
      \<or> (find_sub ''"""'' ''"""doc"""\<newline>#!/usr/bin/env x\<newline># c\<newline>x = 1\<newline>'' = None \<and>
          (\<exists>u v. ''"""doc"""\<newline>#!/usr/bin/env x\<newline># c\<newline>x = 1\<newline>'' =
             u @ ''#!'' @ ''/usr/bin/env x'' @ [nl] @ v \<and> (u = [] \<or> last u = nl)))\<close>
    by simp
  have none: \<open>find_sub ''"""'' ''# a\<newline>#!/usr/bin/env x\<newline># b\<newline>'' = None\<close>
    by (simp add: startswith_def)
  have "''# a\<newline>#!/usr/bin/env x\<newline># b\<newline>'' =
      ''# a\<newline>'' @ ''#!'' @ ''/usr/bin/env x'' @ [nl] @ ''# b\<newline>'' \<and>
      (''# a\<newline>'' = [] \<or> last ''# a\<newline>'' = nl)"
    by simp
  then have "\<exists>u v. ''# a\<newline>#!/usr/bin/env x\<newline># b\<newline>'' =
      u @ ''#!'' @ ''/usr/bin/env x'' @ [nl] @ v \<and> (u = [] \<or> last u = nl)"
    by (intro exI)
  with none have b: \<open>(\<exists>s \<in> set [new_Section [] ''# a\<newline>#!/usr/bin/env x\<newline># b\<newline>''].
        \<exists>u v. code_text s = u @ ''#!'' @ ''/usr/bin/env x'' @ [nl] @ v \<and> (u = [] \<or> last u = nl))
      \<or> (find_sub ''"""'' ''# a\<newline>#!/usr/bin/env x\<newline># b\<newline>'' = None \<and>
          (\<exists>u v. ''# a\<newline>#!/usr/bin/env x\<newline># b\<newline>'' =
             u @ ''#!'' @ ''/usr/bin/env x'' @ [nl] @ v \<and> (u = [] \<or> last u = nl)))\<close>
    by (intro disjI2 conjI)
  from shebang_stays_code [OF h1 h2 shebang_after_docstring_example
      shebang_after_docstring_blocks a]
    shebang_stays_code [OF h1 h2 shebang_between_comments_example
      shebang_between_comments_blocks b]
  show ?thesis by (rule conjI)
qed

text \<open>
  C6 as stated fails: a shebang line inside a triple-quoted block is classified as
  documentation by \<open>parse_multiline\<close>; \<open>parse\<close> returns it in the documentation text, and
  the only code text is a line feed.
\<close>

theorem shebang_in_docstring_counterexample:
  \<open>Python_parse ''"""\<newline>#!/usr/bin/env x\<newline>"""\<newline>'' =
     Some [\<lparr>docs_text = ''\<newline>#!/usr/bin/env x\<newline>'', code_text = ''\<newline>'', level = 0,
             scope = [], meta = Some ''stripped''\<rparr>]\<close>
  by (simp add: parse_eval)

end
